theory Spec2Isabelle
  imports Complex_Main
begin

section \<open>JavaScript values used by the console\<close>

text \<open>
  A JavaScript number is a finite value, one of the two infinities, or NaN. Finite
  doubles are idealised as reals: comparisons are exact, and sums, products and quotients
  of finite values are taken without rounding or overflow. The sign of zero is not
  distinguished. Every guard of the source that asks whether a value is \<open>null\<close>, finite
  or NaN is kept as a branch.
\<close>

datatype jsnum = Fin real | PInf | NInf | NaN

datatype jsval = Undefined | Null | Num jsnum

fun isFinite :: "jsnum \<Rightarrow> bool" where
  "isFinite (Fin _) = True"
| "isFinite _ = False"

text \<open>\<open>a < b\<close>, false as soon as one side is NaN.\<close>

fun js_lt :: "jsnum \<Rightarrow> jsnum \<Rightarrow> bool" where
  "js_lt (Fin a) (Fin b) = (a < b)"
| "js_lt (Fin _) PInf = True"
| "js_lt NInf (Fin _) = True"
| "js_lt NInf PInf = True"
| "js_lt _ _ = False"

definition js_gt :: "jsnum \<Rightarrow> jsnum \<Rightarrow> bool" where
  "js_gt a b = js_lt b a"











fun js_abs :: "jsnum \<Rightarrow> jsnum" where
  "js_abs (Fin a) = Fin \<bar>a\<bar>"
| "js_abs PInf = PInf"
| "js_abs NInf = PInf"
| "js_abs NaN = NaN"


text \<open>\<open>Number(v)\<close> for the values that occur: \<open>Number(null)\<close> is 0, \<open>Number(undefined)\<close> is NaN.\<close>

fun toNumber :: "jsval \<Rightarrow> jsnum" where
  "toNumber Undefined = NaN"
| "toNumber Null = Fin 0"
| "toNumber (Num n) = n"

text \<open>\<open>v == null\<close> holds of \<open>null\<close> and of \<open>undefined\<close>.\<close>

fun isNullish :: "jsval \<Rightarrow> bool" where
  "isNullish (Num _) = False"
| "isNullish _ = True"


section \<open>Sanitizer\<close>

text \<open>
  \<open>sanitizeMetricNumber(field, value)\<close> of \<open>app.js\<close>: \<open>null\<close> for a missing or
  non-finite value, for a voltage outside \<open>[0, 1000]\<close> and for a power whose absolute
  value exceeds 1000; the number itself otherwise.
\<close>

definition sanitizeMetricNumber :: "string \<Rightarrow> jsval \<Rightarrow> jsval" where
  "sanitizeMetricNumber field v =
     (if isNullish v then Null
      else let n = toNumber v in
        if \<not> isFinite n then Null
        else if field = ''volts'' \<and> js_lt n (Fin 0) then Null
        else if field = ''volts'' \<and> js_gt n (Fin 1000) then Null
        else if field = ''kw'' \<and> js_gt (js_abs n) (Fin 1000) then Null
        else Num n)"

text \<open>
  C7. The sanitizer maps a voltage strictly below 0 or strictly above 1000 to \<open>null\<close>, and
  a power whose absolute value is strictly above 1000 to \<open>null\<close>; the voltages 0 and 1000,
  every voltage between them, and every power of absolute value at most 1000 (1000
  included) are returned unchanged; NaN and the infinities yield \<open>null\<close> for every field.
\<close>

theorem sanitizeMetricNumber_bounds:
  "(r < 0 \<or> 1000 < r \<longrightarrow> sanitizeMetricNumber ''volts'' (Num (Fin r)) = Null)
   \<and> (1000 < \<bar>r\<bar> \<longrightarrow> sanitizeMetricNumber ''kw'' (Num (Fin r)) = Null)
   \<and> (0 \<le> r \<and> r \<le> 1000 \<longrightarrow> sanitizeMetricNumber ''volts'' (Num (Fin r)) = Num (Fin r))
   \<and> (\<bar>r\<bar> \<le> 1000 \<longrightarrow> sanitizeMetricNumber ''kw'' (Num (Fin r)) = Num (Fin r))
   \<and> sanitizeMetricNumber ''volts'' (Num (Fin 0)) = Num (Fin 0)
   \<and> sanitizeMetricNumber ''volts'' (Num (Fin 1000)) = Num (Fin 1000)
   \<and> sanitizeMetricNumber ''kw'' (Num (Fin 1000)) = Num (Fin 1000)
   \<and> sanitizeMetricNumber ''kw'' (Num (Fin (- 1000))) = Num (Fin (- 1000))
   \<and> (\<not> isFinite n \<longrightarrow> sanitizeMetricNumber field (Num n) = Null)"
  by (simp add: sanitizeMetricNumber_def js_gt_def Let_def)

theorem sanitizeMetricNumber_bounds_witness:
  "sanitizeMetricNumber ''volts'' (Num (Fin (- 1))) = Null
   \<and> sanitizeMetricNumber ''kw'' (Num (Fin (- 1001))) = Null
   \<and> sanitizeMetricNumber ''volts'' (Num (Fin 230)) = Num (Fin 230)
   \<and> sanitizeMetricNumber ''kw'' (Num (Fin (- 999))) = Num (Fin (- 999))
   \<and> sanitizeMetricNumber ''kw'' (Num PInf) = Null"
  using sanitizeMetricNumber_bounds [of "- 1" NaN "''kw''"]
    sanitizeMetricNumber_bounds [of "- 1001" NaN "''kw''"]
    sanitizeMetricNumber_bounds [of 230 NaN "''kw''"]
    sanitizeMetricNumber_bounds [of "- 999" PInf "''kw''"]
  by simp

section \<open>Strings\<close>

text \<open>
  Strings are lists of characters. \<open>toLowerCase\<close> maps the letters \<open>A\<close>..\<open>Z\<close>; no other
  character lower-cases to a letter of \<open>generator\<close> or \<open>set\<close>, the only words the console
  looks for in a lower-cased name.
\<close>

definition lower_char :: "char \<Rightarrow> char" where
  "lower_char c =
     (case map_of (zip ''ABCDEFGHIJKLMNOPQRSTUVWXYZ'' ''abcdefghijklmnopqrstuvwxyz'') c of
        Some l \<Rightarrow> l
      | None \<Rightarrow> c)"

definition toLowerCase :: "string \<Rightarrow> string" where
  "toLowerCase s = map lower_char s"

fun startsWith :: "string \<Rightarrow> string \<Rightarrow> bool" where
  "startsWith s [] = True"
| "startsWith [] (p # ps) = False"
| "startsWith (c # cs) (p # ps) = (c = p \<and> startsWith cs ps)"

fun str_includes :: "string \<Rightarrow> string \<Rightarrow> bool" where
  "str_includes [] sub = (sub = [])"
| "str_includes (c # cs) sub = (startsWith (c # cs) sub \<or> str_includes cs sub)"

definition is_space :: "char \<Rightarrow> bool" where
  "is_space c = (c \<in> set [CHR '' '', CHR 0x09, CHR 0x0A, CHR 0x0B, CHR 0x0C, CHR 0x0D])"

definition trim :: "string \<Rightarrow> string" where
  "trim s = rev (dropWhile is_space (rev (dropWhile is_space s)))"

section \<open>Connection graph\<close>

text \<open>
  A connection edge \<open>{ fromId, toId, kw }\<close>; \<open>kw\<close> is a number or \<open>null\<close>. A device record of
  the registry with the fields the diagram reads; a missing string field is the empty
  string, which JavaScript treats as false exactly like \<open>undefined\<close>.
\<close>

record edge =
  fromId :: string
  toId :: string
  kw :: jsval

record device =
  dev_id :: string
  portKey :: string
  path :: string
  serialNumber :: string
  dname :: string
  dtype :: string
  commands :: "string list"

text \<open>\<open>a || b\<close> on strings.\<close>

definition str_or :: "string \<Rightarrow> string \<Rightarrow> string" where
  "str_or a b = (if a = [] then b else a)"

definition getConnDiagramId :: "device \<Rightarrow> string" where
  "getConnDiagramId d =
     (let pk = str_or (portKey d) (str_or (path d) (str_or (serialNumber d) (str_or (dname d) ''device'')));
          base = (if dev_id d \<noteq> [] then dev_id d else pk)
      in if startsWith base ''dev:'' then base else ''dev:'' @ base)"






text \<open>
  \<open>normalizeConnections\<close>: the ids of all devices (connected, then available), a set of
  keys already seen, and the output list. The key of an edge is the string
  \<open>fromId=>toId\<close>, as in the source.
\<close>

definition conn_key :: "string \<Rightarrow> string \<Rightarrow> string" where
  "conn_key f t = f @ ''=>'' @ t"

definition clean_kw :: "jsval \<Rightarrow> jsval" where
  "clean_kw v = (if \<not> isNullish v \<and> isFinite (toNumber v) then Num (toNumber v) else Null)"

definition clean_edge :: "edge \<Rightarrow> edge" where
  "clean_edge e = \<lparr>fromId = fromId e, toId = toId e, kw = clean_kw (kw e)\<rparr>"

fun normalize_loop :: "string set \<Rightarrow> edge list \<Rightarrow> string set \<Rightarrow> edge list \<Rightarrow> edge list" where
  "normalize_loop existingIds [] seen out = out"
| "normalize_loop existingIds (e # es) seen out =
     (if fromId e = [] \<or> toId e = [] then normalize_loop existingIds es seen out
      else if fromId e \<notin> existingIds \<or> toId e \<notin> existingIds
        then normalize_loop existingIds es seen out
      else if conn_key (fromId e) (toId e) \<in> seen then normalize_loop existingIds es seen out
      else normalize_loop existingIds es (insert (conn_key (fromId e) (toId e)) seen)
             (out @ [clean_edge e]))"

definition existingIds_of :: "device list \<Rightarrow> device list \<Rightarrow> string set" where
  "existingIds_of connectedDevices availableDevices =
     set (map getConnDiagramId (connectedDevices @ availableDevices))"

definition normalizeConnections :: "device list \<Rightarrow> device list \<Rightarrow> edge list \<Rightarrow> edge list" where
  "normalizeConnections connectedDevices availableDevices conns =
     normalize_loop (existingIds_of connectedDevices availableDevices) conns {} []"

section \<open>Power estimates\<close>

text \<open>
  The operator's estimate for a device name, as read back from the key-value store: each
  field is a number, \<open>null\<close>, or absent (\<open>undefined\<close>). \<open>loadPowerEst(name) || {}\<close> is the
  record with every field absent when nothing is stored. The store is keyed by the
  trimmed device name.
\<close>

record powerEst =
  ratedW :: jsval
  utilization :: jsval
  capacityKW :: jsval
  availability :: jsval









section \<open>Balance controller (Mode 2)\<close>

text \<open>
  The part of the application state that Mode 2 reads and writes. The two device
  registries are \<open>Map\<close>s iterated in insertion order, hence lists of their values.
\<close>

record mode2_state =
  connections :: "edge list"
  connectedDevices :: "device list"
  availableDevices :: "device list"
  estStore :: "string \<rightharpoonup> powerEst"
  preferManualEstimates :: bool
  safeModeEnabled :: bool
  connMode2InFlight :: bool
  connMode2LastApplied :: "(string \<times> jsnum) option"






text \<open>
  What one run of \<open>applyConnectionsMode2\<close> does besides updating the state: the notices
  it shows and, at most once, the call of \<open>setGeneratorLoad(gen.id, targetRounded)\<close>,
  which is the dispatch.
\<close>

datatype mode2_event =
    NoGenerator bool
  | MultipleGenerators
  | StatusLine jsnum jsnum jsnum
  | SafeModeNotice
  | UnchangedNotice
  | SetGeneratorLoad string jsnum
  | AppliedNotice jsnum






text \<open>A small concrete registry and state, used to instantiate the theorems below.\<close>

definition witness_devices :: "device list" where
  "witness_devices =
     [\<lparr>dev_id = ''device_0'', portKey = [], path = [], serialNumber = [], dname = ''generator'',
        dtype = ''provider'', commands = [''setLoad'']\<rparr>,
      \<lparr>dev_id = ''device_1'', portKey = [], path = [], serialNumber = [], dname = ''houseload'',
        dtype = ''consumer'', commands = []\<rparr>]"


section \<open>Connection totals are finite and non-negative\<close>












section \<open>Normalization of the connection graph\<close>

definition edge_pair :: "edge \<Rightarrow> string \<times> string" where
  "edge_pair e = (fromId e, toId e)"

fun first_of_each_pair :: "edge list \<Rightarrow> edge list" where
  "first_of_each_pair [] = []"
| "first_of_each_pair (e # es) =
     e # first_of_each_pair (filter (\<lambda>x. edge_pair x \<noteq> edge_pair e) es)"

definition spec_normalize :: "string set \<Rightarrow> edge list \<Rightarrow> edge list" where
  "spec_normalize existingIds conns =
     map clean_edge
       (first_of_each_pair (filter (\<lambda>e. fromId e \<in> existingIds \<and> toId e \<in> existingIds) conns))"

lemma startsWith_iff: "startsWith s p \<longleftrightarrow> (\<exists>b. s = p @ b)"
  by (induction s p rule: startsWith.induct) auto

lemma str_includes_iff: "str_includes s sub \<longleftrightarrow> (\<exists>a b. s = a @ sub @ b)"
proof (induction s)
  case Nil
  then show ?case by auto
next
  case (Cons c cs)
  show ?case
  proof
    assume "str_includes (c # cs) sub"
    then consider "startsWith (c # cs) sub" | "str_includes cs sub" by auto
    then show "\<exists>a b. c # cs = a @ sub @ b"
    proof cases
      case 1
      then obtain b where "c # cs = sub @ b" by (auto simp: startsWith_iff)
      then have "c # cs = [] @ sub @ b" by simp
      then show ?thesis by blast
    next
      case 2
      then obtain a b where "cs = a @ sub @ b" using Cons.IH by blast
      then have "c # cs = (c # a) @ sub @ b" by simp
      then show ?thesis by blast
    qed
  next
    assume "\<exists>a b. c # cs = a @ sub @ b"
    then obtain a b where ab: "c # cs = a @ sub @ b" by blast
    show "str_includes (c # cs) sub"
    proof (cases a)
      case Nil
      with ab have "startsWith (c # cs) sub" by (auto simp: startsWith_iff)
      then show ?thesis by simp
    next
      case (Cons a0 as)
      with ab have "cs = as @ sub @ b" by simp
      then have "str_includes cs sub" using Cons.IH by blast
      then show ?thesis by simp
    qed
  qed
qed

lemma conn_key_inj:
  "\<not> str_includes f1 ''=>'' \<Longrightarrow> \<not> str_includes f2 ''=>'' \<Longrightarrow>
   conn_key f1 t1 = conn_key f2 t2 \<Longrightarrow> f1 = f2 \<and> t1 = t2"
proof (induction f1 arbitrary: f2)
  case Nil
  show ?case
  proof (cases f2)
    case Nil
    with Nil.prems show ?thesis by (simp add: conn_key_def)
  next
    case (Cons c cs)
    with Nil.prems show ?thesis
      by (cases cs) (auto simp: conn_key_def)
  qed
next
  case (Cons a as)
  show ?case
  proof (cases f2)
    case Nil
    with Cons.prems show ?thesis
      by (cases as) (auto simp: conn_key_def)
  next
    case (Cons c cs)
    with Cons.prems have "a = c" and k: "conn_key as t1 = conn_key cs t2"
      by (simp_all add: conn_key_def)
    moreover have "\<not> str_includes as ''=>''" "\<not> str_includes cs ''=>''"
      using Cons.prems Cons by auto
    ultimately show ?thesis using Cons.IH [of cs] Cons by simp
  qed
qed

definition valid_edge :: "string set \<Rightarrow> edge \<Rightarrow> bool" where
  "valid_edge ex e = (fromId e \<in> ex \<and> toId e \<in> ex)"

definition edge_key :: "edge \<Rightarrow> string" where
  "edge_key e = conn_key (fromId e) (toId e)"

lemma edge_pair_clean [simp]: "edge_pair (clean_edge e) = edge_pair e"
  by (simp add: edge_pair_def clean_edge_def)

lemma edge_key_clean [simp]: "edge_key (clean_edge e) = edge_key e"
  by (simp add: edge_key_def clean_edge_def)

lemma valid_edge_clean [simp]: "valid_edge ex (clean_edge e) = valid_edge ex e"
  by (simp add: valid_edge_def clean_edge_def)

lemma edge_pair_key: "edge_pair x = edge_pair y \<Longrightarrow> edge_key x = edge_key y"
  by (simp add: edge_pair_def edge_key_def)

lemma normalize_loop_valid:
  "\<forall>x \<in> set out. valid_edge ex x \<Longrightarrow> \<forall>x \<in> set (normalize_loop ex es seen out). valid_edge ex x"
proof (induction es arbitrary: seen out)
  case Nil
  then show ?case by simp
next
  case (Cons e es)
  show ?case
  proof (cases "fromId e \<noteq> [] \<and> toId e \<noteq> [] \<and> valid_edge ex e \<and> edge_key e \<notin> seen")
    case True
    then have eq: "normalize_loop ex (e # es) seen out =
        normalize_loop ex es (insert (edge_key e) seen) (out @ [clean_edge e])"
      by (simp add: valid_edge_def edge_key_def)
    moreover have v: "\<forall>x \<in> set (out @ [clean_edge e]). valid_edge ex x"
      using Cons.prems True by simp
    ultimately show ?thesis using Cons.IH [OF v] by simp
  next
    case False
    then have "normalize_loop ex (e # es) seen out = normalize_loop ex es seen out"
      by (auto simp: valid_edge_def edge_key_def)
    then show ?thesis using Cons.IH [OF Cons.prems] by simp
  qed
qed

lemma normalize_loop_distinct:
  "distinct (map edge_pair out) \<Longrightarrow> \<forall>x \<in> set out. edge_key x \<in> seen \<Longrightarrow>
   distinct (map edge_pair (normalize_loop ex es seen out))"
proof (induction es arbitrary: seen out)
  case Nil
  then show ?case by simp
next
  case (Cons e es)
  show ?case
  proof (cases "fromId e \<noteq> [] \<and> toId e \<noteq> [] \<and> valid_edge ex e \<and> edge_key e \<notin> seen")
    case True
    then have eq: "normalize_loop ex (e # es) seen out =
        normalize_loop ex es (insert (edge_key e) seen) (out @ [clean_edge e])"
      by (simp add: valid_edge_def edge_key_def)
    have "edge_pair e \<notin> edge_pair ` set out"
    proof
      assume "edge_pair e \<in> edge_pair ` set out"
      then obtain z where "z \<in> set out" "edge_pair z = edge_pair e" by auto
      then have "edge_key e \<in> seen" using Cons.prems(2) edge_pair_key [of z e] by auto
      with True show False by simp
    qed
    then have d: "distinct (map edge_pair (out @ [clean_edge e]))"
      using Cons.prems(1) by simp
    have k: "\<forall>x \<in> set (out @ [clean_edge e]). edge_key x \<in> insert (edge_key e) seen"
      using Cons.prems(2) by simp
    show ?thesis unfolding eq by (rule Cons.IH [OF d k])
  next
    case False
    then have "normalize_loop ex (e # es) seen out = normalize_loop ex es seen out"
      by (auto simp: valid_edge_def edge_key_def)
    then show ?thesis using Cons.IH [OF Cons.prems] by simp
  qed
qed

lemma normalize_loop_spec:
  assumes inj: "\<And>x y. valid_edge ex x \<Longrightarrow> valid_edge ex y \<Longrightarrow> edge_key x = edge_key y \<Longrightarrow>
                  edge_pair x = edge_pair y"
    and ne: "[] \<notin> ex"
  shows "normalize_loop ex es seen out =
         out @ map clean_edge
           (first_of_each_pair (filter (\<lambda>e. valid_edge ex e \<and> edge_key e \<notin> seen) es))"
proof (induction es arbitrary: seen out)
  case Nil
  then show ?case by simp
next
  case (Cons e es)
  show ?case
  proof (cases "valid_edge ex e \<and> edge_key e \<notin> seen")
    case True
    then have nonempty: "fromId e \<noteq> []" "toId e \<noteq> []"
      using ne by (auto simp: valid_edge_def)
    with True have eq: "normalize_loop ex (e # es) seen out =
        normalize_loop ex es (insert (edge_key e) seen) (out @ [clean_edge e])"
      by (simp add: valid_edge_def edge_key_def)
    have f: "filter (\<lambda>x. edge_pair x \<noteq> edge_pair e) (filter (\<lambda>x. valid_edge ex x \<and> edge_key x \<notin> seen) es)
        = filter (\<lambda>x. valid_edge ex x \<and> edge_key x \<notin> insert (edge_key e) seen) es"
    proof -
      have "(valid_edge ex x \<and> edge_key x \<notin> seen) \<and> edge_pair x \<noteq> edge_pair e
          \<longleftrightarrow> valid_edge ex x \<and> edge_key x \<notin> insert (edge_key e) seen" for x
        using inj [of x e] True edge_pair_key [of x e] by auto
      then show ?thesis by (simp add: filter_filter)
    qed
    have "normalize_loop ex (e # es) seen out =
        (out @ [clean_edge e]) @ map clean_edge (first_of_each_pair
           (filter (\<lambda>x. valid_edge ex x \<and> edge_key x \<notin> insert (edge_key e) seen) es))"
      unfolding eq by (rule Cons.IH)
    also have "\<dots> = out @ map clean_edge (first_of_each_pair
           (filter (\<lambda>e. valid_edge ex e \<and> edge_key e \<notin> seen) (e # es)))"
      using True f by simp
    finally show ?thesis .
  next
    case False
    then have "normalize_loop ex (e # es) seen out = normalize_loop ex es seen out"
      by (auto simp: valid_edge_def edge_key_def)
    moreover have "filter (\<lambda>e. valid_edge ex e \<and> edge_key e \<notin> seen) (e # es)
        = filter (\<lambda>e. valid_edge ex e \<and> edge_key e \<notin> seen) es"
      using False by simp
    ultimately show ?thesis using Cons.IH by simp
  qed
qed

lemma getConnDiagramId_prefix: "startsWith (getConnDiagramId d) ''dev:''"
  by (simp add: getConnDiagramId_def Let_def)

lemma empty_not_existing: "[] \<notin> existingIds_of cds ads"
proof
  assume "[] \<in> existingIds_of cds ads"
  then obtain d where "[] = getConnDiagramId d" by (auto simp: existingIds_of_def)
  with getConnDiagramId_prefix [of d] show False by simp
qed

text \<open>
  C8. After normalization every remaining edge has both endpoints among the ids of the
  current devices, and no ordered pair \<open>(fromId, toId)\<close> occurs twice. When no device id
  contains the separator \<open>=>\<close> of the key (the console's ids are \<open>dev:device_<n>\<close>), the
  result is exactly the edges with both endpoints present, the first occurrence of each
  ordered pair kept and all later ones dropped, in the original order.
\<close>

theorem normalizeConnections_invariant:
  "(\<forall>e \<in> set (normalizeConnections cds ads conns).
       fromId e \<in> existingIds_of cds ads \<and> toId e \<in> existingIds_of cds ads)
   \<and> distinct (map edge_pair (normalizeConnections cds ads conns))
   \<and> ((\<forall>i \<in> existingIds_of cds ads. \<not> str_includes i ''=>'') \<longrightarrow>
        normalizeConnections cds ads conns = spec_normalize (existingIds_of cds ads) conns)"
proof -
  let ?ex = "existingIds_of cds ads"
  have "\<forall>x \<in> set (normalize_loop ?ex conns {} []). valid_edge ?ex x"
    by (rule normalize_loop_valid) simp
  then have a: "\<forall>e \<in> set (normalizeConnections cds ads conns). fromId e \<in> ?ex \<and> toId e \<in> ?ex"
    by (simp add: normalizeConnections_def valid_edge_def)
  have b: "distinct (map edge_pair (normalizeConnections cds ads conns))"
    unfolding normalizeConnections_def by (rule normalize_loop_distinct) simp_all
  have c: "normalizeConnections cds ads conns = spec_normalize ?ex conns"
    if h: "\<forall>i \<in> ?ex. \<not> str_includes i ''=>''"
  proof -
    have inj: "edge_pair x = edge_pair y"
      if "valid_edge ?ex x" "valid_edge ?ex y" "edge_key x = edge_key y" for x y
      using that h conn_key_inj [of "fromId x" "fromId y" "toId x" "toId y"]
      by (simp add: valid_edge_def edge_key_def edge_pair_def)
    have "normalize_loop ?ex conns {} [] =
        [] @ map clean_edge (first_of_each_pair (filter (\<lambda>e. valid_edge ?ex e \<and> edge_key e \<notin> {}) conns))"
      by (rule normalize_loop_spec [OF inj empty_not_existing])
    then show ?thesis
      by (simp add: normalizeConnections_def spec_normalize_def valid_edge_def)
  qed
  from a b c show ?thesis by blast
qed

theorem normalizeConnections_invariant_witness:
  "normalizeConnections witness_devices []
     [\<lparr>fromId = ''dev:device_0'', toId = ''dev:device_1'', kw = Num (Fin 2)\<rparr>,
      \<lparr>fromId = ''dev:device_0'', toId = ''dev:device_9'', kw = Num (Fin 1)\<rparr>,
      \<lparr>fromId = ''dev:device_0'', toId = ''dev:device_1'', kw = Num (Fin 5)\<rparr>]
   = spec_normalize (existingIds_of witness_devices [])
     [\<lparr>fromId = ''dev:device_0'', toId = ''dev:device_1'', kw = Num (Fin 2)\<rparr>,
      \<lparr>fromId = ''dev:device_0'', toId = ''dev:device_9'', kw = Num (Fin 1)\<rparr>,
      \<lparr>fromId = ''dev:device_0'', toId = ''dev:device_1'', kw = Num (Fin 5)\<rparr>]
   \<and> normalizeConnections witness_devices []
     [\<lparr>fromId = ''dev:device_0'', toId = ''dev:device_1'', kw = Num (Fin 2)\<rparr>,
      \<lparr>fromId = ''dev:device_0'', toId = ''dev:device_9'', kw = Num (Fin 1)\<rparr>,
      \<lparr>fromId = ''dev:device_0'', toId = ''dev:device_1'', kw = Num (Fin 5)\<rparr>]
   = [\<lparr>fromId = ''dev:device_0'', toId = ''dev:device_1'', kw = Num (Fin 2)\<rparr>]"
  using normalizeConnections_invariant [of witness_devices "[]"
     "[\<lparr>fromId = ''dev:device_0'', toId = ''dev:device_1'', kw = Num (Fin 2)\<rparr>,
      \<lparr>fromId = ''dev:device_0'', toId = ''dev:device_9'', kw = Num (Fin 1)\<rparr>,
      \<lparr>fromId = ''dev:device_0'', toId = ''dev:device_1'', kw = Num (Fin 5)\<rparr>]"]
  by (simp add: witness_devices_def existingIds_of_def getConnDiagramId_def str_or_def
        normalizeConnections_def conn_key_def clean_edge_def clean_kw_def)

section \<open>The balance computation meets its contract\<close>







definition dispatches :: "mode2_event list \<Rightarrow> (string \<times> jsnum) list" where
  "dispatches evs = concat (map (\<lambda>ev. case ev of SetGeneratorLoad i v \<Rightarrow> [(i, v)] | _ \<Rightarrow> []) evs)"











lemma dispatches_simps [simp]:
  "dispatches [] = []"
  "dispatches (xs @ ys) = dispatches xs @ dispatches ys"
  "dispatches (SetGeneratorLoad i v # xs) = (i, v) # dispatches xs"
  "dispatches (MultipleGenerators # xs) = dispatches xs"
  "dispatches (StatusLine a b c # xs) = dispatches xs"
  "dispatches (SafeModeNotice # xs) = dispatches xs"
  "dispatches (UnchangedNotice # xs) = dispatches xs"
  "dispatches (AppliedNotice v # xs) = dispatches xs"
  "dispatches (NoGenerator g # xs) = dispatches xs"
  by (simp_all add: dispatches_def)





















section \<open>Demand inference\<close>























section \<open>Transport\<close>

text \<open>
  \<open>SerialCommander\<close>: a line-oriented channel to one port. What the device will answer
  is a script of lines, each with the time in milliseconds after which it arrives once a
  read is waiting for it. Every line written and every read that was issued is recorded,
  in order, in \<open>trace\<close>; \<open>clock\<close> is the value of \<open>Date.now()\<close>. A write takes no time.
\<close>

datatype io_event = Sent string | Read string

record cmd =
  inArg :: nat
  outArg :: nat

record baseDevice =
  writerOpen :: bool
  readerOpen :: bool
  inbound :: "(nat \<times> string) list"
  trace :: "io_event list"
  clock :: nat
  cmds :: "string \<rightharpoonup> cmd"
  console :: "string list"

definition sendCommand :: "string \<Rightarrow> baseDevice \<Rightarrow> baseDevice" where
  "sendCommand command d = (if \<not> writerOpen d then d else d\<lparr>trace := trace d @ [Sent command]\<rparr>)"

definition sleep :: "nat \<Rightarrow> baseDevice \<Rightarrow> baseDevice" where
  "sleep ms d = d\<lparr>clock := clock d + ms\<rparr>"

text \<open>
  \<open>readResponse(timeout)\<close>: the next line, trimmed, when it arrives before the timeout,
  and the empty string otherwise (also when there is no reader).
\<close>

definition readResponse :: "nat \<Rightarrow> baseDevice \<Rightarrow> string \<times> baseDevice" where
  "readResponse timeout d =
     (if \<not> readerOpen d then ([], d)
      else
        (case inbound d of
          [] \<Rightarrow> ([], d\<lparr>clock := clock d + timeout, trace := trace d @ [Read []]\<rparr>)
        | (delay, line) # rest \<Rightarrow>
            if delay < timeout
              then (trim line,
                    d\<lparr>inbound := rest, clock := clock d + delay, trace := trace d @ [Read (trim line)]\<rparr>)
              else ([], d\<lparr>inbound := (delay - timeout, line) # rest, clock := clock d + timeout,
                         trace := trace d @ [Read []]\<rparr>)))"

section \<open>Command catalog\<close>

text \<open>
  \<open>this.cmds\<close> is a plain object used as a dictionary. Reading \<open>this.cmds[name]\<close> gives
  the registered \<open>Cmd\<close> when \<open>name\<close> is an own property; otherwise the property is looked
  up on \<open>Object.prototype\<close>, whose members are functions or objects (truthy, and without
  \<open>inArg\<close> or \<open>outArg\<close>); otherwise it is \<open>undefined\<close>.
\<close>

definition object_prototype_keys :: "string list" where
  "object_prototype_keys =
     [''constructor'', ''__defineGetter__'', ''__defineSetter__'', ''hasOwnProperty'',
      ''__lookupGetter__'', ''__lookupSetter__'', ''isPrototypeOf'', ''propertyIsEnumerable'',
      ''toString'', ''valueOf'', ''__proto__'', ''toLocaleString'']"

datatype cmd_lookup = NotFound | Found cmd | Inherited

definition lookup_cmd :: "(string \<rightharpoonup> cmd) \<Rightarrow> string \<Rightarrow> cmd_lookup" where
  "lookup_cmd m cmdName =
     (case m cmdName of
        Some c \<Rightarrow> Found c
      | None \<Rightarrow> if cmdName \<in> set object_prototype_keys then Inherited else NotFound)"

text \<open>The error line of \<open>call\<close> and \<open>readCmdMessage\<close> for a name that is not in the menu.\<close>

definition not_in_menu :: "string \<Rightarrow> string" where
  "not_in_menu cmdName = ''error: '' @ cmdName @ '' is not in the command menu''"

text \<open>The loop of \<open>readCmdMessage\<close>: \<open>count\<close> reads with the default timeout of 2000 ms.\<close>

fun read_lines :: "nat \<Rightarrow> baseDevice \<Rightarrow> string list \<times> baseDevice" where
  "read_lines 0 d = ([], d)"
| "read_lines (Suc n) d =
     (let (response, d1) = readResponse 2000 d;
          (more, d2) = read_lines n d1
      in (response # more, d2))"

text \<open>
  \<open>readCmdMessage(cmdName, returnValue)\<close>. For an inherited property the count
  \<open>undefined + undefined\<close> is NaN and the loop body never runs. \<open>returnValue\<close> only decides
  whether prompts are printed, which is not modelled.
\<close>

definition readCmdMessage :: "string \<Rightarrow> baseDevice \<Rightarrow> string list option \<times> baseDevice" where
  "readCmdMessage cmdName d =
     (case lookup_cmd (cmds d) cmdName of
        NotFound \<Rightarrow> (None, d\<lparr>console := console d @ [not_in_menu cmdName]\<rparr>)
      | Found c \<Rightarrow>
          (let (data, d') = read_lines (inArg c + outArg c) (sleep 100 (sendCommand cmdName d))
           in (Some data, d'))
      | Inherited \<Rightarrow> (Some [], sleep 100 (sendCommand cmdName d)))"

text \<open>\<open>call(cmdName, returnValue)\<close>; \<open>None\<close> is \<open>null\<close>.\<close>

definition call :: "string \<Rightarrow> baseDevice \<Rightarrow> string list option \<times> baseDevice" where
  "call cmdName d =
     (case lookup_cmd (cmds d) cmdName of
        NotFound \<Rightarrow> (None, d\<lparr>console := console d @ [not_in_menu cmdName]\<rparr>)
      | Found c \<Rightarrow>
          if inArg c = 0 \<and> outArg c = 0 then (None, sendCommand cmdName d)
          else readCmdMessage cmdName d
      | Inherited \<Rightarrow> readCmdMessage cmdName d)"


definition read_results :: "io_event list \<Rightarrow> string list" where
  "read_results t = concat (map (\<lambda>ev. case ev of Read l \<Rightarrow> [l] | Sent _ \<Rightarrow> []) t)"

section \<open>Discovery\<close>

definition is_letter_us :: "char \<Rightarrow> bool" where
  "is_letter_us c =
     (let n = (of_char c :: nat) in (97 \<le> n \<and> n \<le> 122) \<or> (65 \<le> n \<and> n \<le> 90) \<or> n = 95)"

definition is_digit :: "char \<Rightarrow> bool" where
  "is_digit c = (let n = (of_char c :: nat) in 48 \<le> n \<and> n \<le> 57)"



record parsed_command =
  command :: string
  numOfOutput :: nat
  numOfInput :: nat


lemma sendCommand_clock [simp]: "clock (sendCommand c d) = clock d"
  by (simp add: sendCommand_def)

lemma sleep_clock [simp]: "clock (sleep ms d) = clock d + ms"
  by (simp add: sleep_def)







section \<open>Command execution\<close>

text \<open>
  The part of the application state that \<open>executeCommand\<close> reads and writes: the registry
  of connected devices, the safety flag, the command log (at most 500 entries), the
  notices shown and the results displayed. Times of day are left out of the records.
\<close>

record deviceInfo =
  info_name :: string
  revidyneDevice :: "baseDevice option"
  lastCommand :: string
  lastStatus :: string

record log_entry =
  log_deviceName :: string
  log_command :: string
  log_args :: "string list"
  log_result :: string
  log_error :: string
  log_safeMode :: bool

datatype payload = Lines "string list" | Message string

record app_state =
  registry :: "string \<rightharpoonup> deviceInfo"
  safeMode :: bool
  commandLog :: "log_entry list"
  toasts :: "string list"
  shown :: "(string \<times> string \<times> payload) list"
  defaultCommandTimeoutMs :: nat

text \<open>
  The options of one request: an explicit argument list, whether prompting is switched
  off (\<open>options.prompt === null\<close>), a deadline override, and what the operator answers
  if a prompt is shown (\<open>None\<close> when the prompt is cancelled).
\<close>

record exec_options =
  opt_args :: "string list option"
  opt_noPrompt :: bool
  opt_timeoutMs :: "nat option"
  promptAnswer :: "string option"

definition addCommandLog :: "log_entry \<Rightarrow> log_entry list \<Rightarrow> log_entry list" where
  "addCommandLog entry lg = (let lg' = lg @ [entry] in if length lg' > 500 then tl lg' else lg')"

text \<open>
  \<open>s.split(/\s+/)\<close>: \<open>cur\<close> is the word being read; a run of white space ends it at
  its last character.
\<close>

fun split_ws :: "string \<Rightarrow> string \<Rightarrow> string list" where
  "split_ws cur [] = [cur]"
| "split_ws cur (c # cs) =
     (if is_space c then
        (case cs of
           c' # _ \<Rightarrow> if is_space c' then split_ws cur cs else cur # split_ws [] cs
         | [] \<Rightarrow> cur # split_ws [] cs)
      else split_ws (cur @ [c]) cs)"

text \<open>\<open>value.join(sep)\<close>.\<close>

fun join :: "string \<Rightarrow> string list \<Rightarrow> string" where
  "join sep [] = []"
| "join sep [x] = x"
| "join sep (x # y # ys) = x @ sep @ join sep (y # ys)"

definition formatForLog :: "string list option \<Rightarrow> string" where
  "formatForLog v = (case v of None \<Rightarrow> [] | Some ls \<Rightarrow> join '' | '' ls)"

text \<open>
  \<open>withTimeout(promise, timeoutMs, label)\<close> around a transport operation that started at
  \<open>start\<close> and left the device in state \<open>d'\<close>: the result when the operation took less
  than the deadline, the timeout error otherwise.
\<close>

definition withTimeout :: "nat \<Rightarrow> string \<Rightarrow> nat \<Rightarrow> 'a \<times> baseDevice \<Rightarrow> (string + 'a) \<times> baseDevice" where
  "withTimeout timeoutMs label start r =
     (if clock (snd r) - start < timeoutMs then (Inr (fst r), snd r)
      else (Inl (label @ '' timeout''), snd r))"

fun send_args :: "nat \<Rightarrow> string \<Rightarrow> string list \<Rightarrow> baseDevice \<Rightarrow> (string + unit) \<times> baseDevice" where
  "send_args timeoutMs cmdName [] d = (Inr (), d)"
| "send_args timeoutMs cmdName (a # as) d =
     (case withTimeout timeoutMs (cmdName @ '' arg send'') (clock d) ((), sendCommand a d) of
        (Inl e, d') \<Rightarrow> (Inl e, d')
      | (Inr _, d') \<Rightarrow> send_args timeoutMs cmdName as (sleep 50 d'))"

fun timed_reads :: "nat \<Rightarrow> string \<Rightarrow> nat \<Rightarrow> baseDevice \<Rightarrow> (string + string list) \<times> baseDevice" where
  "timed_reads timeoutMs cmdName 0 d = (Inr [], d)"
| "timed_reads timeoutMs cmdName (Suc n) d =
     (case withTimeout timeoutMs (cmdName @ '' read'') (clock d) (readResponse 2000 d) of
        (Inl e, d') \<Rightarrow> (Inl e, d')
      | (Inr line, d') \<Rightarrow>
          (case timed_reads timeoutMs cmdName n d' of
             (Inl e, d'') \<Rightarrow> (Inl e, d'')
           | (Inr rest_lines, d'') \<Rightarrow> (Inr (line # rest_lines), d'')))"

text \<open>The transport part of the task: the result or the error message, and the device.\<close>

definition run_command ::
  "nat \<Rightarrow> string \<Rightarrow> string list \<Rightarrow> baseDevice \<Rightarrow> (string + string list option) \<times> baseDevice"
where
  "run_command timeoutMs cmdName args d =
     (if args \<noteq> [] then
        (case withTimeout timeoutMs (cmdName @ '' send'') (clock d) ((), sendCommand cmdName d) of
           (Inl e, d1) \<Rightarrow> (Inl e, d1)
         | (Inr _, d1) \<Rightarrow>
             (case send_args timeoutMs cmdName args d1 of
                (Inl e, d2) \<Rightarrow> (Inl e, d2)
              | (Inr _, d2) \<Rightarrow>
                  (let outArgs = (case lookup_cmd (cmds d) cmdName of Found c \<Rightarrow> outArg c | _ \<Rightarrow> 0)
                   in if outArgs > 0 then
                        (case timed_reads timeoutMs cmdName outArgs d2 of
                           (Inl e, d3) \<Rightarrow> (Inl e, d3)
                         | (Inr data, d3) \<Rightarrow> (Inr (Some data), d3))
                      else (Inr None, d2))))
      else withTimeout timeoutMs (cmdName @ '' call'') (clock d) (call cmdName d))"

datatype arg_choice = Cancelled | Args "string list"

definition choose_args :: "string \<Rightarrow> exec_options \<Rightarrow> baseDevice \<Rightarrow> arg_choice" where
  "choose_args cmdName opts d =
     (let inArgs = (case lookup_cmd (cmds d) cmdName of Found c \<Rightarrow> inArg c | _ \<Rightarrow> 0);
          needsInput = (inArgs > 0 \<or> startsWith cmdName ''set'')
      in case opt_args opts of
           Some as \<Rightarrow> Args as
         | None \<Rightarrow>
             if needsInput \<and> \<not> opt_noPrompt opts then
               (case promptAnswer opts of
                  None \<Rightarrow> Cancelled
                | Some raw \<Rightarrow> Args (if trim raw \<noteq> [] then split_ws [] (trim raw) else []))
             else Args [])"

definition no_payload :: payload where
  "no_payload = Message ''Command sent. (No payload returned)''"

definition blocked_message :: "string \<Rightarrow> string" where
  "blocked_message cmdName = ''Blocked by Demo/Safe Mode: '' @ cmdName"

text \<open>
  \<open>executeCommand(deviceId, cmdName, options)\<close>. The task it enqueues is run at once: the
  order in which queued tasks run is the subject of the device queue, below.
\<close>

definition executeCommand :: "string \<Rightarrow> string \<Rightarrow> exec_options \<Rightarrow> app_state \<Rightarrow> app_state" where
  "executeCommand deviceId cmdName opts s =
     (case registry s deviceId of
        None \<Rightarrow> s
      | Some info \<Rightarrow>
          (case revidyneDevice info of
             None \<Rightarrow> s
           | Some dev \<Rightarrow>
               if safeMode s \<and> startsWith (toLowerCase cmdName) ''set'' then
                 s\<lparr>toasts := toasts s @ [blocked_message cmdName],
                   commandLog := addCommandLog
                     \<lparr>log_deviceName = info_name info, log_command = cmdName,
                      log_args = (case opt_args opts of Some as \<Rightarrow> as | None \<Rightarrow> []),
                      log_result = [], log_error = blocked_message cmdName, log_safeMode = True\<rparr>
                     (commandLog s),
                   registry := (registry s)(deviceId \<mapsto>
                     info\<lparr>lastCommand := cmdName, lastStatus := ''BLOCKED''\<rparr>)\<rparr>
               else
                 (case choose_args cmdName opts dev of
                    Cancelled \<Rightarrow>
                      s\<lparr>commandLog := addCommandLog
                          \<lparr>log_deviceName = info_name info, log_command = cmdName, log_args = [],
                           log_result = [], log_error = ''cancelled'', log_safeMode = False\<rparr>
                          (commandLog s),
                        registry := (registry s)(deviceId \<mapsto>
                          info\<lparr>lastCommand := cmdName, lastStatus := ''RUNNING''\<rparr>)\<rparr>
                  | Args args \<Rightarrow>
                      (let timeoutMs = (case opt_timeoutMs opts of Some t \<Rightarrow> t
                                        | None \<Rightarrow> defaultCommandTimeoutMs s)
                       in case run_command timeoutMs cmdName args dev of
                            (Inr res, dev') \<Rightarrow>
                              (let hasPayload = (case res of Some ls \<Rightarrow> ls \<noteq> [] | None \<Rightarrow> False)
                               in s\<lparr>shown := shown s @
                                      [(info_name info, cmdName,
                                        case res of
                                          Some ls \<Rightarrow> if hasPayload then Lines ls else no_payload
                                        | None \<Rightarrow> no_payload)],
                                    toasts := toasts s @ [''Running command: '' @ cmdName],
                                    commandLog := addCommandLog
                                      \<lparr>log_deviceName = info_name info, log_command = cmdName,
                                       log_args = args,
                                       log_result = (if hasPayload then formatForLog res
                                                     else ''sent (no payload)''),
                                       log_error = [], log_safeMode = False\<rparr>
                                      (commandLog s),
                                    registry := (registry s)(deviceId \<mapsto>
                                      info\<lparr>revidyneDevice := Some dev', lastCommand := cmdName,
                                        lastStatus := ''OK''\<rparr>)\<rparr>)
                          | (Inl msg, dev') \<Rightarrow>
                              s\<lparr>toasts := toasts s @ [''Command failed''],
                                commandLog := addCommandLog
                                  \<lparr>log_deviceName = info_name info, log_command = cmdName,
                                   log_args = args, log_result = [], log_error = msg,
                                   log_safeMode = False\<rparr>
                                  (commandLog s),
                                registry := (registry s)(deviceId \<mapsto>
                                  info\<lparr>revidyneDevice := Some dev', lastCommand := cmdName,
                                    lastStatus := ''TIMEOUT''\<rparr>)\<rparr>))))"

section \<open>Calling a name that is not registered\<close>

lemma call_not_found:
  assumes "cmds d cmdName = None" "cmdName \<notin> set object_prototype_keys"
  shows "call cmdName d = (None, d\<lparr>console := console d @ [not_in_menu cmdName]\<rparr>)"
  using assms by (simp add: call_def lookup_cmd_def)

definition bare_device :: baseDevice where
  "bare_device =
     \<lparr>writerOpen = True, readerOpen = True, inbound = [], trace = [], clock = 0,
      cmds = [''getKW'' \<mapsto> \<lparr>inArg = 0, outArg = 0\<rparr>], console = []\<rparr>"

text \<open>
  C9 (what the code does at an inherited property name). \<open>constructor\<close> is not in the
  catalog of \<open>bare_device\<close>, yet \<open>this.cmds['constructor']\<close> is the inherited
  \<open>Object\<close> function, which is truthy: the guard of \<open>call\<close> and of \<open>readCmdMessage\<close>
  lets it pass, the name is written to the transport, no error is reported, and an empty
  list is returned. A name that is neither registered nor inherited is rejected with no
  transport operation.
\<close>

theorem call_inherited_name_reaches_transport:
  "cmds bare_device ''constructor'' = None
   \<and> fst (call ''constructor'' bare_device) = Some []
   \<and> trace (snd (call ''constructor'' bare_device)) = [Sent ''constructor'']
   \<and> console (snd (call ''constructor'' bare_device)) = []
   \<and> call ''getVolts'' bare_device
       = (None, bare_device\<lparr>console := [not_in_menu ''getVolts'']\<rparr>)"
  by (simp add: bare_device_def call_def readCmdMessage_def lookup_cmd_def object_prototype_keys_def
      sendCommand_def sleep_def)

section \<open>The safety flag\<close>

lemma last_addCommandLog: "last (addCommandLog e lg) = e"
  by (cases lg) (simp_all add: addCommandLog_def Let_def)

lemma length_addCommandLog: "length lg \<le> 500 \<Longrightarrow> length (addCommandLog e lg) \<le> 500"
  by (simp add: addCommandLog_def Let_def)

text \<open>
  C4. With the safety flag on, a command whose name starts with \<open>set\<close> in any letter case
  leaves every device of the registry, and so every transport, exactly as it was: no line
  is written. When the target device is connected, exactly one entry is appended to the
  command log; it names the command, its result is empty and its error field holds the
  non-empty message \<open>Blocked by Demo/Safe Mode: <name>\<close>. \<open>setX\<close> is such a command.
\<close>

theorem safe_mode_blocks_set_commands:
  "(safeMode s \<and> startsWith (toLowerCase cmdName) ''set'' \<longrightarrow>
      (\<forall>i. map_option revidyneDevice (registry (executeCommand deviceId cmdName opts s) i)
            = map_option revidyneDevice (registry s i))
      \<and> (registry s deviceId = Some info \<and> revidyneDevice info = Some dev \<longrightarrow>
           (\<exists>e. commandLog (executeCommand deviceId cmdName opts s) = addCommandLog e (commandLog s)
              \<and> last (commandLog (executeCommand deviceId cmdName opts s)) = e
              \<and> log_command e = cmdName \<and> log_deviceName e = info_name info
              \<and> log_result e = [] \<and> log_error e = blocked_message cmdName \<and> log_error e \<noteq> [])))
   \<and> startsWith (toLowerCase ''setX'') ''set'' \<and> startsWith (toLowerCase ''SetLoad'') ''set''"
proof -
  have a: "map_option revidyneDevice (registry (executeCommand deviceId cmdName opts s) i)
            = map_option revidyneDevice (registry s i)"
    if "safeMode s" "startsWith (toLowerCase cmdName) ''set''" for i
    using that by (simp add: executeCommand_def split: option.splits)
  have b: "\<exists>e. commandLog (executeCommand deviceId cmdName opts s) = addCommandLog e (commandLog s)
              \<and> last (commandLog (executeCommand deviceId cmdName opts s)) = e
              \<and> log_command e = cmdName \<and> log_deviceName e = info_name info
              \<and> log_result e = [] \<and> log_error e = blocked_message cmdName \<and> log_error e \<noteq> []"
    if "safeMode s" "startsWith (toLowerCase cmdName) ''set''"
      "registry s deviceId = Some info" "revidyneDevice info = Some dev"
    using that by (simp add: executeCommand_def last_addCommandLog blocked_message_def)
  have c: "startsWith (toLowerCase ''setX'') ''set''" "startsWith (toLowerCase ''SetLoad'') ''set''"
    by (simp_all add: toLowerCase_def lower_char_def)
  from a b c show ?thesis by blast
qed

definition meter_device :: baseDevice where
  "meter_device =
     \<lparr>writerOpen = True, readerOpen = True, inbound = [(10, ''1.50''), (10, ''ok'')], trace = [],
      clock = 0,
      cmds = [''getKW'' \<mapsto> \<lparr>inArg = 1, outArg = 1\<rparr>, ''setX'' \<mapsto> \<lparr>inArg = 1, outArg = 0\<rparr>],
      console = []\<rparr>"

definition console_state :: "bool \<Rightarrow> app_state" where
  "console_state safe =
     \<lparr>registry = [''device_0'' \<mapsto>
        \<lparr>info_name = ''meter'', revidyneDevice = Some meter_device, lastCommand = [], lastStatus = []\<rparr>],
      safeMode = safe, commandLog = [], toasts = [], shown = [], defaultCommandTimeoutMs = 3000\<rparr>"

definition explicit_args :: "string list \<Rightarrow> exec_options" where
  "explicit_args as = \<lparr>opt_args = Some as, opt_noPrompt = False, opt_timeoutMs = None, promptAnswer = None\<rparr>"

theorem safe_mode_blocks_set_commands_witness:
  "map_option revidyneDevice
      (registry (executeCommand ''device_0'' ''setX'' (explicit_args [''5'']) (console_state True)) ''device_0'')
     = Some (Some meter_device)
   \<and> log_error (last (commandLog
        (executeCommand ''device_0'' ''setX'' (explicit_args [''5'']) (console_state True))))
     = ''Blocked by Demo/Safe Mode: setX''"
proof -
  note t = safe_mode_blocks_set_commands [where s = "console_state True" and cmdName = "''setX''"
      and deviceId = "''device_0''" and opts = "explicit_args [''5'']" and dev = meter_device
      and info = "\<lparr>info_name = ''meter'', revidyneDevice = Some meter_device, lastCommand = [],
        lastStatus = []\<rparr>"]
  have pre: "safeMode (console_state True)"
    "registry (console_state True) ''device_0'' = Some \<lparr>info_name = ''meter'',
        revidyneDevice = Some meter_device, lastCommand = [], lastStatus = []\<rparr>"
    by (simp_all add: console_state_def)
  from t pre show ?thesis by (auto simp: blocked_message_def)
qed

section \<open>Invoking a command with one input and one output\<close>








section \<open>Discovery echoes every recorded line as it was received\<close>









section \<open>Parsing a signature\<close>















section \<open>Base names for display\<close>

text \<open>
  \<open>parseFirmwareCommands\<close> of the console, applied to the names of the catalog: the base
  name of a line is its leading identifier \<open>[A-Za-z_][A-Za-z0-9_]*\<close>, or the whole line
  when there is none; the first line seen for a base name is kept as its signature.
  \<open>signaturesByCommand\<close> is a plain object, read like the catalog.
\<close>

definition is_word_char :: "char \<Rightarrow> bool" where
  "is_word_char c = (is_letter_us c \<or> is_digit c)"

definition base_of :: "string \<Rightarrow> string" where
  "base_of line =
     (case line of
        [] \<Rightarrow> line
      | c # cs \<Rightarrow> if is_letter_us c then c # takeWhile is_word_char cs else line)"

record firmware_commands =
  fw_commands :: "string list"
  signaturesByCommand :: "string \<rightharpoonup> string"

definition has_signature :: "(string \<rightharpoonup> string) \<Rightarrow> string \<Rightarrow> bool" where
  "has_signature m base =
     (case m base of Some v \<Rightarrow> v \<noteq> [] | None \<Rightarrow> base \<in> set object_prototype_keys)"

fun firmware_loop :: "string list \<Rightarrow> string set \<Rightarrow> firmware_commands \<Rightarrow> firmware_commands" where
  "firmware_loop [] seen out = out"
| "firmware_loop (line # ls) seen out =
     (let base = base_of line
      in if base = [] then firmware_loop ls seen out
         else
           let out1 = (if base \<notin> seen then out\<lparr>fw_commands := fw_commands out @ [base]\<rparr> else out);
               out2 = (if \<not> has_signature (signaturesByCommand out1) base
                       then out1\<lparr>signaturesByCommand := (signaturesByCommand out1)(base \<mapsto> line)\<rparr>
                       else out1)
           in firmware_loop ls (insert base seen) out2)"

definition parseFirmwareCommands :: "string list \<Rightarrow> firmware_commands" where
  "parseFirmwareCommands rawCommands =
     firmware_loop
       (filter (\<lambda>v. toLowerCase v \<noteq> ''eoc'') (filter (\<lambda>v. v \<noteq> []) (map trim rawCommands)))
       {} \<lparr>fw_commands = [], signaturesByCommand = Map.empty\<rparr>"












section \<open>Device queue\<close>

text \<open>
  \<open>enqueueDeviceCommand\<close> chains promises: \<open>next = prev.catch(() => undefined).then(() =>
  taskFn())\<close>, and \<open>next\<close> becomes the queue of the device id. The state holds the promises
  that exist (how each was made, and whether it is settled), the tasks that were enqueued
  (their device id, and whether they have been called and have settled), and the
  \<open>deviceQueues\<close> map. A task function is identified by the number it gets when it is
  enqueued. Results and errors are values; \<open>None\<close> is \<open>undefined\<close>.
\<close>

datatype outcome = Fulfilled "nat option" | Rejected "nat option"

datatype pstatus = Pending | Settled outcome

datatype pkind = Resolved | CatchOf nat | ThenTask nat nat

datatype tstatus = NotStarted | Running | Done outcome

record queue_state =
  deviceQueues :: "string \<rightharpoonup> nat"
  p_kind :: "nat \<rightharpoonup> pkind"
  p_status :: "nat \<rightharpoonup> pstatus"
  t_owner :: "nat \<rightharpoonup> string"
  t_status :: "nat \<rightharpoonup> tstatus"
  next_pid :: nat
  next_tid :: nat

definition init_queues :: queue_state where
  "init_queues =
     \<lparr>deviceQueues = Map.empty, p_kind = Map.empty, p_status = Map.empty, t_owner = Map.empty,
      t_status = Map.empty, next_pid = 0, next_tid = 0\<rparr>"

definition new_promise :: "pkind \<Rightarrow> pstatus \<Rightarrow> queue_state \<Rightarrow> nat \<times> queue_state" where
  "new_promise k st s =
     (next_pid s,
      s\<lparr>p_kind := (p_kind s)(next_pid s \<mapsto> k), p_status := (p_status s)(next_pid s \<mapsto> st),
        next_pid := Suc (next_pid s)\<rparr>)"

text \<open>\<open>getQueueForDevice\<close>: the queue of the id, \<open>Promise.resolve()\<close> when it has none yet.\<close>

definition getQueueForDevice :: "string \<Rightarrow> queue_state \<Rightarrow> nat \<times> queue_state" where
  "getQueueForDevice deviceId s =
     (case deviceQueues s deviceId of
        Some p \<Rightarrow> (p, s)
      | None \<Rightarrow>
          let (p, s1) = new_promise Resolved (Settled (Fulfilled None)) s
          in (p, s1\<lparr>deviceQueues := (deviceQueues s1)(deviceId \<mapsto> p)\<rparr>))"

text \<open>
  \<open>enqueueDeviceCommand(deviceId, taskFn)\<close>: the promise \<open>next\<close> it returns, the number of
  the task, and the new state.
\<close>

definition enqueueDeviceCommand :: "string \<Rightarrow> queue_state \<Rightarrow> nat \<times> nat \<times> queue_state" where
  "enqueueDeviceCommand deviceId s =
     (let (prev, s1) = getQueueForDevice deviceId s;
          task = next_tid s1;
          (caught, s2) = new_promise (CatchOf prev) Pending s1;
          (nxt, s3) = new_promise (ThenTask caught task) Pending s2
      in (nxt, task,
          s3\<lparr>deviceQueues := (deviceQueues s3)(deviceId \<mapsto> nxt),
             t_owner := (t_owner s3)(task \<mapsto> deviceId),
             t_status := (t_status s3)(task \<mapsto> NotStarted),
             next_tid := Suc task\<rparr>))"

text \<open>The handler \<open>() => undefined\<close> of \<open>catch\<close> turns a rejection into \<open>undefined\<close>.\<close>

fun caught_outcome :: "outcome \<Rightarrow> outcome" where
  "caught_outcome (Fulfilled v) = Fulfilled v"
| "caught_outcome (Rejected e) = Fulfilled None"

text \<open>
  What can happen next: a call of \<open>enqueueDeviceCommand\<close>; a settled promise running the
  reaction of a \<open>catch\<close> or a \<open>then\<close> made from it (the \<open>then\<close> calls the task function when
  its source is fulfilled, and passes a rejection on without calling it); a running task
  settling, with any outcome; and the promise of a \<open>then\<close> taking the outcome of its task.
\<close>

inductive step :: "queue_state \<Rightarrow> queue_state \<Rightarrow> bool" where
  enqueue: "step s (snd (snd (enqueueDeviceCommand deviceId s)))"
| react_catch:
    "\<lbrakk>p_kind s c = Some (CatchOf src); p_status s c = Some Pending;
      p_status s src = Some (Settled out)\<rbrakk>
     \<Longrightarrow> step s (s\<lparr>p_status := (p_status s)(c \<mapsto> Settled (caught_outcome out))\<rparr>)"
| start_task:
    "\<lbrakk>p_kind s n = Some (ThenTask src task); p_status s n = Some Pending;
      p_status s src = Some (Settled (Fulfilled v)); t_status s task = Some NotStarted\<rbrakk>
     \<Longrightarrow> step s (s\<lparr>t_status := (t_status s)(task \<mapsto> Running)\<rparr>)"
| pass_rejection:
    "\<lbrakk>p_kind s n = Some (ThenTask src task); p_status s n = Some Pending;
      p_status s src = Some (Settled (Rejected e))\<rbrakk>
     \<Longrightarrow> step s (s\<lparr>p_status := (p_status s)(n \<mapsto> Settled (Rejected e))\<rparr>)"
| finish_task:
    "t_status s task = Some Running
     \<Longrightarrow> step s (s\<lparr>t_status := (t_status s)(task \<mapsto> Done out)\<rparr>)"
| adopt:
    "\<lbrakk>p_kind s n = Some (ThenTask src task); p_status s n = Some Pending;
      t_status s task = Some (Done out)\<rbrakk>
     \<Longrightarrow> step s (s\<lparr>p_status := (p_status s)(n \<mapsto> Settled out)\<rparr>)"

inductive reachable :: "queue_state \<Rightarrow> bool" where
  init: "reachable init_queues"
| next_state: "\<lbrakk>reachable s; step s s'\<rbrakk> \<Longrightarrow> reachable s'"

section \<open>The invariant of the device queue\<close>

definition settled :: "queue_state \<Rightarrow> nat \<Rightarrow> bool" where
  "settled s p = (\<exists>out. p_status s p = Some (Settled out))"

definition task_done :: "queue_state \<Rightarrow> nat \<Rightarrow> bool" where
  "task_done s t = (\<exists>out. t_status s t = Some (Done out))"

text \<open>Every task enqueued for the device id before task \<open>t\<close> has settled.\<close>

definition earlier_done :: "queue_state \<Rightarrow> string \<Rightarrow> nat \<Rightarrow> bool" where
  "earlier_done s d t = (\<forall>t'. t' < t \<and> t_owner s t' = Some d \<longrightarrow> task_done s t')"

text \<open>
  The promise \<open>prev\<close> stands for everything enqueued for the device id before task \<open>t\<close>:
  it is the initial resolved promise and there is no such task, or it is the promise of
  the last such task.
\<close>

definition pred_ok :: "queue_state \<Rightarrow> string \<Rightarrow> nat \<Rightarrow> nat \<Rightarrow> bool" where
  "pred_ok s d t prev =
     (case p_kind s prev of
        Some Resolved \<Rightarrow> (\<forall>t'. t' < t \<longrightarrow> t_owner s t' \<noteq> Some d)
      | Some (ThenTask c' t') \<Rightarrow>
          t' < t \<and> t_owner s t' = Some d \<and> (\<forall>t''. t'' < t \<and> t_owner s t'' = Some d \<longrightarrow> t'' \<le> t')
      | _ \<Rightarrow> False)"

definition inv_dom :: "queue_state \<Rightarrow> bool" where
  "inv_dom s =
     ((\<forall>p. (p_kind s p \<noteq> None) = (p < next_pid s)) \<and> (\<forall>p. (p_status s p \<noteq> None) = (p < next_pid s))
      \<and> (\<forall>t. (t_owner s t \<noteq> None) = (t < next_tid s))
      \<and> (\<forall>t. (t_status s t \<noteq> None) = (t < next_tid s)))"

definition inv_resolved :: "queue_state \<Rightarrow> bool" where
  "inv_resolved s = (\<forall>p. p_kind s p = Some Resolved \<longrightarrow> p_status s p = Some (Settled (Fulfilled None)))"

definition inv_catch :: "queue_state \<Rightarrow> bool" where
  "inv_catch s =
     (\<forall>c src. p_kind s c = Some (CatchOf src) \<longrightarrow>
        p_kind s src \<noteq> None
        \<and> (\<forall>out. p_status s c = Some (Settled out) \<longrightarrow> (\<exists>v. out = Fulfilled v) \<and> settled s src))"

definition inv_then :: "queue_state \<Rightarrow> bool" where
  "inv_then s =
     (\<forall>n c t. p_kind s n = Some (ThenTask c t) \<longrightarrow>
        (\<exists>prev d. p_kind s c = Some (CatchOf prev) \<and> t_owner s t = Some d \<and> pred_ok s d t prev
           \<and> (settled s c \<longrightarrow> earlier_done s d t))
        \<and> (t_status s t \<noteq> Some NotStarted \<longrightarrow> settled s c)
        \<and> (\<forall>out. p_status s n = Some (Settled out) \<longrightarrow> t_status s t = Some (Done out)))"

definition inv_task :: "queue_state \<Rightarrow> bool" where
  "inv_task s =
     ((\<forall>t. t < next_tid s \<longrightarrow> (\<exists>n c. p_kind s n = Some (ThenTask c t)))
      \<and> (\<forall>n n' c c' t. p_kind s n = Some (ThenTask c t) \<and> p_kind s n' = Some (ThenTask c' t) \<longrightarrow> n = n'))"

definition inv_tail :: "queue_state \<Rightarrow> bool" where
  "inv_tail s =
     (\<forall>d. case deviceQueues s d of
             None \<Rightarrow> (\<forall>t. t_owner s t \<noteq> Some d)
           | Some p \<Rightarrow> pred_ok s d (next_tid s) p)"

definition queue_inv :: "queue_state \<Rightarrow> bool" where
  "queue_inv s =
     (inv_dom s \<and> inv_resolved s \<and> inv_catch s \<and> inv_then s \<and> inv_task s \<and> inv_tail s)"

lemma queue_inv_init: "queue_inv init_queues"
  by (simp add: queue_inv_def inv_dom_def inv_resolved_def inv_catch_def inv_then_def inv_task_def
      inv_tail_def init_queues_def)

text \<open>Frame lemmas: what \<open>pred_ok\<close> and \<open>earlier_done\<close> depend on.\<close>

lemma pred_ok_frame:
  assumes "p_kind s' prev = p_kind s prev" "\<And>t'. t' < t \<Longrightarrow> t_owner s' t' = t_owner s t'"
  shows "pred_ok s' d t prev = pred_ok s d t prev"
  using assms by (auto simp: pred_ok_def split: option.splits pkind.splits)

lemma earlier_done_frame:
  assumes "\<And>t'. t' < t \<Longrightarrow> t_owner s' t' = t_owner s t'"
    "\<And>t'. t' < t \<Longrightarrow> task_done s t' \<Longrightarrow> task_done s' t'"
  shows "earlier_done s d t \<Longrightarrow> earlier_done s' d t"
  using assms by (auto simp: earlier_done_def)

lemma inv_tail_frame:
  assumes "deviceQueues s' = deviceQueues s" "t_owner s' = t_owner s" "p_kind s' = p_kind s"
    "next_tid s' = next_tid s"
  shows "inv_tail s' = inv_tail s"
proof -
  have "pred_ok s' d t p = pred_ok s d t p" for d t p
    by (rule pred_ok_frame) (simp_all add: assms)
  then show ?thesis by (simp add: inv_tail_def assms cong: option.case_cong)
qed

lemma inv_task_frame:
  assumes "p_kind s' = p_kind s" "next_tid s' = next_tid s"
  shows "inv_task s' = inv_task s"
  by (simp add: inv_task_def assms)

lemma inv_thenD:
  assumes "inv_then s" "p_kind s n = Some (ThenTask c t)"
  obtains prev d where "p_kind s c = Some (CatchOf prev)" "t_owner s t = Some d" "pred_ok s d t prev"
    "settled s c \<Longrightarrow> earlier_done s d t"
    "t_status s t \<noteq> Some NotStarted \<Longrightarrow> settled s c"
    "\<And>out. p_status s n = Some (Settled out) \<Longrightarrow> t_status s t = Some (Done out)"
  using assms unfolding inv_then_def by blast

text \<open>
  Once the promise before task \<open>t\<close> is settled, every earlier task of the device id has
  settled.
\<close>

lemma settled_prev_covers:
  assumes inv: "inv_then s" and po: "pred_ok s d t prev" and st: "settled s prev"
  shows "earlier_done s d t"
proof (cases "p_kind s prev")
  case None
  with po show ?thesis by (simp add: pred_ok_def)
next
  case (Some k)
  show ?thesis
  proof (cases k)
    case Resolved
    with Some po show ?thesis by (auto simp: pred_ok_def earlier_done_def)
  next
    case (CatchOf x)
    with Some po show ?thesis by (simp add: pred_ok_def)
  next
    case (ThenTask c' t')
    with Some po have p: "t' < t" "t_owner s t' = Some d"
      "\<And>t''. t'' < t \<Longrightarrow> t_owner s t'' = Some d \<Longrightarrow> t'' \<le> t'"
      by (auto simp: pred_ok_def)
    from st obtain out where out: "p_status s prev = Some (Settled out)" by (auto simp: settled_def)
    from inv Some ThenTask obtain prev' d' where th:
      "t_owner s t' = Some d'" "settled s c' \<Longrightarrow> earlier_done s d' t'"
      "t_status s t' \<noteq> Some NotStarted \<Longrightarrow> settled s c'"
      "\<And>out. p_status s prev = Some (Settled out) \<Longrightarrow> t_status s t' = Some (Done out)"
      by (auto elim: inv_thenD)
    from th(4) [OF out] have dn: "t_status s t' = Some (Done out)" .
    then have "settled s c'" using th(3) by simp
    then have "earlier_done s d' t'" by (rule th(2))
    moreover have "d' = d" using th(1) p(2) by simp
    ultimately have ed: "earlier_done s d t'" by simp
    show ?thesis
      unfolding earlier_done_def
    proof (intro allI impI)
      fix t'' assume a: "t'' < t \<and> t_owner s t'' = Some d"
      then have "t'' \<le> t'" using p(3) by blast
      then consider "t'' = t'" | "t'' < t'" by linarith
      then show "task_done s t''"
      proof cases
        case 1
        with dn show ?thesis by (auto simp: task_done_def)
      next
        case 2
        with ed a show ?thesis by (auto simp: earlier_done_def)
      qed
    qed
  qed
qed

lemma step_react_catch_inv:
  assumes inv: "queue_inv s"
    and k: "p_kind s c = Some (CatchOf src)" and pc: "p_status s c = Some Pending"
    and ps: "p_status s src = Some (Settled out)"
  shows "queue_inv (s\<lparr>p_status := (p_status s)(c \<mapsto> Settled (caught_outcome out))\<rparr>)"
proof -
  let ?s = "s\<lparr>p_status := (p_status s)(c \<mapsto> Settled (caught_outcome out))\<rparr>"
  from inv have i: "inv_dom s" "inv_resolved s" "inv_catch s" "inv_then s" "inv_task s" "inv_tail s"
    by (simp_all add: queue_inv_def)
  have mono: "settled s p \<Longrightarrow> settled ?s p" for p
    using pc by (auto simp: settled_def)
  have sc: "settled ?s p \<longleftrightarrow> settled s p \<or> p = c" for p
    using pc by (auto simp: settled_def)
  have po: "pred_ok ?s d t p = pred_ok s d t p" for d t p
    by (rule pred_ok_frame) simp_all
  have ed: "earlier_done ?s d t = earlier_done s d t" for d t
    by (simp add: earlier_done_def task_done_def)
  have cf: "\<exists>v. caught_outcome out = Fulfilled v" by (cases out) simp_all
  have "inv_dom ?s"
    using i(1) k by (auto simp: inv_dom_def)
  moreover have "inv_resolved ?s"
    using i(2) k by (auto simp: inv_resolved_def)
  moreover have "inv_catch ?s"
    unfolding inv_catch_def
  proof (intro allI impI)
    fix c' src' assume a: "p_kind ?s c' = Some (CatchOf src')"
    then have a': "p_kind s c' = Some (CatchOf src')" by simp
    from i(3) a' have b: "p_kind s src' \<noteq> None"
      "\<And>o'. p_status s c' = Some (Settled o') \<Longrightarrow> (\<exists>v. o' = Fulfilled v) \<and> settled s src'"
      by (auto simp: inv_catch_def)
    show "p_kind ?s src' \<noteq> None
        \<and> (\<forall>o'. p_status ?s c' = Some (Settled o') \<longrightarrow> (\<exists>v. o' = Fulfilled v) \<and> settled ?s src')"
    proof (cases "c' = c")
      case True
      with a' k have "src' = src" by simp
      moreover have "settled ?s src" using ps by (auto intro: mono simp: settled_def)
      ultimately show ?thesis using b(1) cf True by auto
    next
      case False
      then show ?thesis using b mono by auto
    qed
  qed
  moreover have "inv_then ?s"
    unfolding inv_then_def
  proof (intro allI impI)
    fix n c0 t assume a: "p_kind ?s n = Some (ThenTask c0 t)"
    then have a': "p_kind s n = Some (ThenTask c0 t)" by simp
    from i(4) a' obtain prev d where th: "p_kind s c0 = Some (CatchOf prev)" "t_owner s t = Some d"
      "pred_ok s d t prev" "settled s c0 \<Longrightarrow> earlier_done s d t"
      "t_status s t \<noteq> Some NotStarted \<Longrightarrow> settled s c0"
      "\<And>o'. p_status s n = Some (Settled o') \<Longrightarrow> t_status s t = Some (Done o')"
      by (rule inv_thenD) blast
    have nc: "n \<noteq> c" using a' k by auto
    have cover: "earlier_done s d t" if "settled ?s c0"
    proof (cases "c0 = c")
      case True
      with th(1) k have "prev = src" by simp
      then have "settled s prev" using ps by (auto simp: settled_def)
      from settled_prev_covers [OF i(4) th(3) this] show ?thesis .
    next
      case False
      with that sc have "settled s c0" by simp
      then show ?thesis by (rule th(4))
    qed
    have 1: "\<exists>prev d. p_kind ?s c0 = Some (CatchOf prev) \<and> t_owner ?s t = Some d \<and> pred_ok ?s d t prev
           \<and> (settled ?s c0 \<longrightarrow> earlier_done ?s d t)"
      using th(1,2,3) cover by (auto simp: po ed)
    have 2: "t_status ?s t \<noteq> Some NotStarted \<longrightarrow> settled ?s c0"
      using th(5) mono by auto
    have 3: "\<forall>o'. p_status ?s n = Some (Settled o') \<longrightarrow> t_status ?s t = Some (Done o')"
      using th(6) nc by auto
    from 1 2 3 show "(\<exists>prev d. p_kind ?s c0 = Some (CatchOf prev) \<and> t_owner ?s t = Some d
           \<and> pred_ok ?s d t prev \<and> (settled ?s c0 \<longrightarrow> earlier_done ?s d t))
        \<and> (t_status ?s t \<noteq> Some NotStarted \<longrightarrow> settled ?s c0)
        \<and> (\<forall>o'. p_status ?s n = Some (Settled o') \<longrightarrow> t_status ?s t = Some (Done o'))"
      by blast
  qed
  moreover have "inv_task ?s"
    using i(5) by (simp add: inv_task_frame [of ?s s])
  moreover have "inv_tail ?s"
    using i(6) by (simp add: inv_tail_frame [of ?s s])
  ultimately show ?thesis by (simp add: queue_inv_def)
qed

lemma inv_resolved_frame:
  assumes "p_kind s' = p_kind s"
    "\<And>p. p_kind s p = Some Resolved \<Longrightarrow> p_status s' p = p_status s p"
  shows "inv_resolved s \<Longrightarrow> inv_resolved s'"
  using assms by (auto simp: inv_resolved_def)

lemma inv_catch_frame:
  assumes "p_kind s' = p_kind s" "p_status s' = p_status s"
  shows "inv_catch s' = inv_catch s"
  by (simp add: inv_catch_def settled_def assms)

lemma then_unique:
  assumes "inv_task s" "p_kind s n = Some (ThenTask c t)" "p_kind s n' = Some (ThenTask c' t)"
  shows "n' = n \<and> c' = c"
proof -
  from assms have "n = n'" unfolding inv_task_def by blast
  with assms(2,3) show ?thesis by simp
qed

lemma step_start_task_inv:
  assumes inv: "queue_inv s"
    and k: "p_kind s n = Some (ThenTask src task)" and pn: "p_status s n = Some Pending"
    and ps: "p_status s src = Some (Settled (Fulfilled v))" and ts: "t_status s task = Some NotStarted"
  shows "queue_inv (s\<lparr>t_status := (t_status s)(task \<mapsto> Running)\<rparr>)"
proof -
  let ?s = "s\<lparr>t_status := (t_status s)(task \<mapsto> Running)\<rparr>"
  from inv have i: "inv_dom s" "inv_resolved s" "inv_catch s" "inv_then s" "inv_task s" "inv_tail s"
    by (simp_all add: queue_inv_def)
  have st: "settled ?s p = settled s p" for p by (simp add: settled_def)
  have po: "pred_ok ?s d t p = pred_ok s d t p" for d t p
    by (rule pred_ok_frame) simp_all
  have td: "task_done s t \<Longrightarrow> task_done ?s t" for t
    using ts by (auto simp: task_done_def)
  have ed: "earlier_done s d t \<Longrightarrow> earlier_done ?s d t" for d t
    by (rule earlier_done_frame) (simp_all add: td)
  have "inv_dom ?s" using i(1) ts by (auto simp: inv_dom_def)
  moreover have "inv_resolved ?s" using i(2) by (rule inv_resolved_frame [rotated 2]) simp_all
  moreover have "inv_catch ?s" using i(3) by (simp add: inv_catch_frame [of ?s s])
  moreover have "inv_then ?s"
    unfolding inv_then_def
  proof (intro allI impI)
    fix n0 c0 t assume "p_kind ?s n0 = Some (ThenTask c0 t)"
    then have a': "p_kind s n0 = Some (ThenTask c0 t)" by simp
    from i(4) a' obtain prev d where th: "p_kind s c0 = Some (CatchOf prev)" "t_owner s t = Some d"
      "pred_ok s d t prev" "settled s c0 \<Longrightarrow> earlier_done s d t"
      "t_status s t \<noteq> Some NotStarted \<Longrightarrow> settled s c0"
      "\<And>o'. p_status s n0 = Some (Settled o') \<Longrightarrow> t_status s t = Some (Done o')"
      by (rule inv_thenD) blast
    have 1: "\<exists>prev d. p_kind ?s c0 = Some (CatchOf prev) \<and> t_owner ?s t = Some d \<and> pred_ok ?s d t prev
           \<and> (settled ?s c0 \<longrightarrow> earlier_done ?s d t)"
      using th(1,2,3,4) ed by (auto simp: po st)
    have 2: "t_status ?s t \<noteq> Some NotStarted \<longrightarrow> settled ?s c0"
    proof (cases "t = task")
      case True
      with then_unique [OF i(5) k] a' have "c0 = src" by blast
      then show ?thesis using ps by (simp add: settled_def)
    next
      case False
      then show ?thesis using th(5) by (simp add: st)
    qed
    have 3: "\<forall>o'. p_status ?s n0 = Some (Settled o') \<longrightarrow> t_status ?s t = Some (Done o')"
      using th(6) ts by auto
    from 1 2 3 show "(\<exists>prev d. p_kind ?s c0 = Some (CatchOf prev) \<and> t_owner ?s t = Some d
           \<and> pred_ok ?s d t prev \<and> (settled ?s c0 \<longrightarrow> earlier_done ?s d t))
        \<and> (t_status ?s t \<noteq> Some NotStarted \<longrightarrow> settled ?s c0)
        \<and> (\<forall>o'. p_status ?s n0 = Some (Settled o') \<longrightarrow> t_status ?s t = Some (Done o'))"
      by blast
  qed
  moreover have "inv_task ?s" using i(5) by (simp add: inv_task_frame [of ?s s])
  moreover have "inv_tail ?s" using i(6) by (simp add: inv_tail_frame [of ?s s])
  ultimately show ?thesis by (simp add: queue_inv_def)
qed

lemma step_finish_task_inv:
  assumes inv: "queue_inv s" and ts: "t_status s task = Some Running"
  shows "queue_inv (s\<lparr>t_status := (t_status s)(task \<mapsto> Done out)\<rparr>)"
proof -
  let ?s = "s\<lparr>t_status := (t_status s)(task \<mapsto> Done out)\<rparr>"
  from inv have i: "inv_dom s" "inv_resolved s" "inv_catch s" "inv_then s" "inv_task s" "inv_tail s"
    by (simp_all add: queue_inv_def)
  have st: "settled ?s p = settled s p" for p by (simp add: settled_def)
  have po: "pred_ok ?s d t p = pred_ok s d t p" for d t p
    by (rule pred_ok_frame) simp_all
  have td: "task_done s t \<Longrightarrow> task_done ?s t" for t
    by (auto simp: task_done_def)
  have ed: "earlier_done s d t \<Longrightarrow> earlier_done ?s d t" for d t
    by (rule earlier_done_frame) (simp_all add: td)
  have "inv_dom ?s" using i(1) ts by (auto simp: inv_dom_def)
  moreover have "inv_resolved ?s" using i(2) by (rule inv_resolved_frame [rotated 2]) simp_all
  moreover have "inv_catch ?s" using i(3) by (simp add: inv_catch_frame [of ?s s])
  moreover have "inv_then ?s"
    unfolding inv_then_def
  proof (intro allI impI)
    fix n0 c0 t assume "p_kind ?s n0 = Some (ThenTask c0 t)"
    then have a': "p_kind s n0 = Some (ThenTask c0 t)" by simp
    from i(4) a' obtain prev d where th: "p_kind s c0 = Some (CatchOf prev)" "t_owner s t = Some d"
      "pred_ok s d t prev" "settled s c0 \<Longrightarrow> earlier_done s d t"
      "t_status s t \<noteq> Some NotStarted \<Longrightarrow> settled s c0"
      "\<And>o'. p_status s n0 = Some (Settled o') \<Longrightarrow> t_status s t = Some (Done o')"
      by (rule inv_thenD) blast
    have 1: "\<exists>prev d. p_kind ?s c0 = Some (CatchOf prev) \<and> t_owner ?s t = Some d \<and> pred_ok ?s d t prev
           \<and> (settled ?s c0 \<longrightarrow> earlier_done ?s d t)"
      using th(1,2,3,4) ed by (auto simp: po st)
    have 2: "t_status ?s t \<noteq> Some NotStarted \<longrightarrow> settled ?s c0"
      using th(5) ts by (auto simp: st)
    have 3: "\<forall>o'. p_status ?s n0 = Some (Settled o') \<longrightarrow> t_status ?s t = Some (Done o')"
      using th(6) ts by auto
    from 1 2 3 show "(\<exists>prev d. p_kind ?s c0 = Some (CatchOf prev) \<and> t_owner ?s t = Some d
           \<and> pred_ok ?s d t prev \<and> (settled ?s c0 \<longrightarrow> earlier_done ?s d t))
        \<and> (t_status ?s t \<noteq> Some NotStarted \<longrightarrow> settled ?s c0)
        \<and> (\<forall>o'. p_status ?s n0 = Some (Settled o') \<longrightarrow> t_status ?s t = Some (Done o'))"
      by blast
  qed
  moreover have "inv_task ?s" using i(5) by (simp add: inv_task_frame [of ?s s])
  moreover have "inv_tail ?s" using i(6) by (simp add: inv_tail_frame [of ?s s])
  ultimately show ?thesis by (simp add: queue_inv_def)
qed

text \<open>The promise made by \<open>catch\<close> is never rejected, so a \<open>then\<close> never passes a rejection on.\<close>

lemma no_rejected_source:
  assumes inv: "queue_inv s" and k: "p_kind s n = Some (ThenTask src task)"
  shows "p_status s src \<noteq> Some (Settled (Rejected e))"
proof
  assume r: "p_status s src = Some (Settled (Rejected e))"
  from inv have i: "inv_catch s" "inv_then s" by (simp_all add: queue_inv_def)
  from i(2) k obtain prev where "p_kind s src = Some (CatchOf prev)"
    unfolding inv_then_def by blast
  with i(1) r show False unfolding inv_catch_def by blast
qed

lemma step_adopt_inv:
  assumes inv: "queue_inv s"
    and k: "p_kind s n = Some (ThenTask src task)" and pn: "p_status s n = Some Pending"
    and ts: "t_status s task = Some (Done out)"
  shows "queue_inv (s\<lparr>p_status := (p_status s)(n \<mapsto> Settled out)\<rparr>)"
proof -
  let ?s = "s\<lparr>p_status := (p_status s)(n \<mapsto> Settled out)\<rparr>"
  from inv have i: "inv_dom s" "inv_resolved s" "inv_catch s" "inv_then s" "inv_task s" "inv_tail s"
    by (simp_all add: queue_inv_def)
  have mono: "settled s p \<Longrightarrow> settled ?s p" for p
    using pn by (auto simp: settled_def)
  have sc: "settled ?s p \<longleftrightarrow> settled s p \<or> p = n" for p
    using pn by (auto simp: settled_def)
  have po: "pred_ok ?s d t p = pred_ok s d t p" for d t p
    by (rule pred_ok_frame) simp_all
  have ed: "earlier_done ?s d t = earlier_done s d t" for d t
    by (simp add: earlier_done_def task_done_def)
  have "inv_dom ?s" using i(1) k by (auto simp: inv_dom_def)
  moreover have "inv_resolved ?s" using i(2) k by (auto simp: inv_resolved_def)
  moreover have "inv_catch ?s"
    unfolding inv_catch_def
  proof (intro allI impI)
    fix c' src' assume "p_kind ?s c' = Some (CatchOf src')"
    then have a': "p_kind s c' = Some (CatchOf src')" by simp
    from i(3) a' have b: "p_kind s src' \<noteq> None"
      "\<And>o'. p_status s c' = Some (Settled o') \<Longrightarrow> (\<exists>v. o' = Fulfilled v) \<and> settled s src'"
      by (auto simp: inv_catch_def)
    have "c' \<noteq> n" using a' k by auto
    then show "p_kind ?s src' \<noteq> None
        \<and> (\<forall>o'. p_status ?s c' = Some (Settled o') \<longrightarrow> (\<exists>v. o' = Fulfilled v) \<and> settled ?s src')"
      using b mono by auto
  qed
  moreover have "inv_then ?s"
    unfolding inv_then_def
  proof (intro allI impI)
    fix n0 c0 t assume "p_kind ?s n0 = Some (ThenTask c0 t)"
    then have a': "p_kind s n0 = Some (ThenTask c0 t)" by simp
    from i(4) a' obtain prev d where th: "p_kind s c0 = Some (CatchOf prev)" "t_owner s t = Some d"
      "pred_ok s d t prev" "settled s c0 \<Longrightarrow> earlier_done s d t"
      "t_status s t \<noteq> Some NotStarted \<Longrightarrow> settled s c0"
      "\<And>o'. p_status s n0 = Some (Settled o') \<Longrightarrow> t_status s t = Some (Done o')"
      by (rule inv_thenD) blast
    have cn: "c0 \<noteq> n" using th(1) k by auto
    have 1: "\<exists>prev d. p_kind ?s c0 = Some (CatchOf prev) \<and> t_owner ?s t = Some d \<and> pred_ok ?s d t prev
           \<and> (settled ?s c0 \<longrightarrow> earlier_done ?s d t)"
      using th(1,2,3,4) cn by (auto simp: po ed sc)
    have 2: "t_status ?s t \<noteq> Some NotStarted \<longrightarrow> settled ?s c0"
      using th(5) mono by auto
    have 3: "\<forall>o'. p_status ?s n0 = Some (Settled o') \<longrightarrow> t_status ?s t = Some (Done o')"
    proof (cases "n0 = n")
      case True
      with a' k have "t = task" by simp
      with True ts show ?thesis by simp
    next
      case False
      then show ?thesis using th(6) by simp
    qed
    from 1 2 3 show "(\<exists>prev d. p_kind ?s c0 = Some (CatchOf prev) \<and> t_owner ?s t = Some d
           \<and> pred_ok ?s d t prev \<and> (settled ?s c0 \<longrightarrow> earlier_done ?s d t))
        \<and> (t_status ?s t \<noteq> Some NotStarted \<longrightarrow> settled ?s c0)
        \<and> (\<forall>o'. p_status ?s n0 = Some (Settled o') \<longrightarrow> t_status ?s t = Some (Done o'))"
      by blast
  qed
  moreover have "inv_task ?s" using i(5) by (simp add: inv_task_frame [of ?s s])
  moreover have "inv_tail ?s" using i(6) by (simp add: inv_tail_frame [of ?s s])
  ultimately show ?thesis by (simp add: queue_inv_def)
qed

text \<open>The two halves of an enqueue: making the initial resolved promise, and chaining.\<close>

lemma getQueue_existing:
  "deviceQueues s d = Some p \<Longrightarrow> getQueueForDevice d s = (p, s)"
  by (simp add: getQueueForDevice_def)

lemma getQueue_fresh_fields:
  assumes "deviceQueues s d = None"
  shows "fst (getQueueForDevice d s) = next_pid s"
    and "deviceQueues (snd (getQueueForDevice d s)) = (deviceQueues s)(d \<mapsto> next_pid s)"
    and "p_kind (snd (getQueueForDevice d s)) = (p_kind s)(next_pid s \<mapsto> Resolved)"
    and "p_status (snd (getQueueForDevice d s)) = (p_status s)(next_pid s \<mapsto> Settled (Fulfilled None))"
    and "t_owner (snd (getQueueForDevice d s)) = t_owner s"
    and "t_status (snd (getQueueForDevice d s)) = t_status s"
    and "next_pid (snd (getQueueForDevice d s)) = Suc (next_pid s)"
    and "next_tid (snd (getQueueForDevice d s)) = next_tid s"
  using assms by (simp_all add: getQueueForDevice_def new_promise_def)

lemma pred_ok_kept:
  assumes "pred_ok s d t prev" "p_kind s prev \<noteq> None \<Longrightarrow> p_kind s' prev = p_kind s prev"
    "\<And>t'. t' < t \<Longrightarrow> t_owner s' t' = t_owner s t'"
  shows "pred_ok s' d t prev"
proof -
  from assms(1) have "p_kind s prev \<noteq> None" by (cases "p_kind s prev") (simp_all add: pred_ok_def)
  then have "p_kind s' prev = p_kind s prev" by (rule assms(2))
  from pred_ok_frame [OF this assms(3)] assms(1) show ?thesis by simp
qed

lemma getQueue_fresh_inv:
  assumes inv: "queue_inv s" and dq: "deviceQueues s d = None"
  shows "queue_inv (snd (getQueueForDevice d s))"
proof -
  let ?s = "snd (getQueueForDevice d s)"
  let ?np = "next_pid s"
  note f = getQueue_fresh_fields [OF dq]
  from inv have i: "inv_dom s" "inv_resolved s" "inv_catch s" "inv_then s" "inv_task s" "inv_tail s"
    by (simp_all add: queue_inv_def)
  have old: "p_kind s p \<noteq> None \<Longrightarrow> p \<noteq> ?np" for p
    using i(1) by (auto simp: inv_dom_def)
  have kept: "p_kind s p \<noteq> None \<Longrightarrow> p_kind ?s p = p_kind s p \<and> p_status ?s p = p_status s p" for p
    using old [of p] by (simp add: f)
  have st: "p_kind s p \<noteq> None \<Longrightarrow> settled ?s p = settled s p" for p
    using kept [of p] by (simp add: settled_def)
  have po: "pred_ok s d' t p \<Longrightarrow> pred_ok ?s d' t p" for d' t p
  proof (rule pred_ok_kept)
    show "p_kind s p \<noteq> None \<Longrightarrow> p_kind ?s p = p_kind s p" using kept [of p] by simp
    show "t_owner ?s t' = t_owner s t'" for t' by (simp add: f)
  qed
  have ed: "earlier_done ?s d' t = earlier_done s d' t" for d' t
    by (simp add: earlier_done_def task_done_def f)
  have "inv_dom ?s" using i(1) by (auto simp: inv_dom_def f)
  moreover have "inv_resolved ?s" using i(2) by (auto simp: inv_resolved_def f)
  moreover have "inv_catch ?s"
    unfolding inv_catch_def
  proof (intro allI impI)
    fix c src assume "p_kind ?s c = Some (CatchOf src)"
    then have a': "p_kind s c = Some (CatchOf src)" by (auto simp: f split: if_splits)
    from i(3) a' have b: "p_kind s src \<noteq> None"
      "\<And>o'. p_status s c = Some (Settled o') \<Longrightarrow> (\<exists>v. o' = Fulfilled v) \<and> settled s src"
      by (auto simp: inv_catch_def)
    have kc: "p_status ?s c = p_status s c" using kept [of c] a' by simp
    show "p_kind ?s src \<noteq> None
        \<and> (\<forall>o'. p_status ?s c = Some (Settled o') \<longrightarrow> (\<exists>v. o' = Fulfilled v) \<and> settled ?s src)"
      using b kept [OF b(1)] st [OF b(1)] kc by auto
  qed
  moreover have "inv_then ?s"
    unfolding inv_then_def
  proof (intro allI impI)
    fix n0 c0 t assume "p_kind ?s n0 = Some (ThenTask c0 t)"
    then have a': "p_kind s n0 = Some (ThenTask c0 t)" by (auto simp: f split: if_splits)
    from i(4) a' obtain prev d' where th: "p_kind s c0 = Some (CatchOf prev)" "t_owner s t = Some d'"
      "pred_ok s d' t prev" "settled s c0 \<Longrightarrow> earlier_done s d' t"
      "t_status s t \<noteq> Some NotStarted \<Longrightarrow> settled s c0"
      "\<And>o'. p_status s n0 = Some (Settled o') \<Longrightarrow> t_status s t = Some (Done o')"
      by (rule inv_thenD) blast
    have kc: "p_kind ?s c0 = p_kind s c0" "settled ?s c0 = settled s c0"
      using kept [of c0] st [of c0] th(1) by simp_all
    have kn: "p_status ?s n0 = p_status s n0" using kept [of n0] a' by simp
    have 1: "\<exists>prev d. p_kind ?s c0 = Some (CatchOf prev) \<and> t_owner ?s t = Some d \<and> pred_ok ?s d t prev
           \<and> (settled ?s c0 \<longrightarrow> earlier_done ?s d t)"
      using th(1,2,4) po [OF th(3)] kc by (auto simp: ed f)
    have 2: "t_status ?s t \<noteq> Some NotStarted \<longrightarrow> settled ?s c0"
      using th(5) kc by (simp add: f)
    have 3: "\<forall>o'. p_status ?s n0 = Some (Settled o') \<longrightarrow> t_status ?s t = Some (Done o')"
      using th(6) kn by (simp add: f)
    from 1 2 3 show "(\<exists>prev d. p_kind ?s c0 = Some (CatchOf prev) \<and> t_owner ?s t = Some d
           \<and> pred_ok ?s d t prev \<and> (settled ?s c0 \<longrightarrow> earlier_done ?s d t))
        \<and> (t_status ?s t \<noteq> Some NotStarted \<longrightarrow> settled ?s c0)
        \<and> (\<forall>o'. p_status ?s n0 = Some (Settled o') \<longrightarrow> t_status ?s t = Some (Done o'))"
      by blast
  qed
  moreover have "inv_task ?s"
  proof -
    have a: "\<exists>n c. p_kind ?s n = Some (ThenTask c t)" if "t < next_tid ?s" for t
    proof -
      from that i(5) obtain n c where nc: "p_kind s n = Some (ThenTask c t)"
        by (auto simp: inv_task_def f)
      then have "p_kind ?s n = Some (ThenTask c t)" using kept [of n] by simp
      then show ?thesis by blast
    qed
    have b: "n = n'" if "p_kind ?s n = Some (ThenTask c t)" "p_kind ?s n' = Some (ThenTask c' t)"
      for n n' c c' t
    proof -
      from that have "p_kind s n = Some (ThenTask c t)" "p_kind s n' = Some (ThenTask c' t)"
        by (auto simp: f split: if_splits)
      with i(5) show ?thesis unfolding inv_task_def by blast
    qed
    from a b show ?thesis unfolding inv_task_def by blast
  qed
  moreover have "inv_tail ?s"
    unfolding inv_tail_def
  proof
    fix d'
    show "case deviceQueues ?s d' of None \<Rightarrow> \<forall>t. t_owner ?s t \<noteq> Some d'
          | Some p \<Rightarrow> pred_ok ?s d' (next_tid ?s) p"
    proof (cases "d' = d")
      case True
      from i(6) have "case deviceQueues s d of None \<Rightarrow> \<forall>t. t_owner s t \<noteq> Some d
          | Some p \<Rightarrow> pred_ok s d (next_tid s) p"
        unfolding inv_tail_def by blast
      with dq have "\<forall>t. t_owner s t \<noteq> Some d" by simp
      then have "pred_ok ?s d (next_tid s) ?np" by (simp add: pred_ok_def f)
      with True show ?thesis by (simp add: f)
    next
      case False
      from i(6) have t: "case deviceQueues s d' of None \<Rightarrow> \<forall>t. t_owner s t \<noteq> Some d'
          | Some p \<Rightarrow> pred_ok s d' (next_tid s) p"
        unfolding inv_tail_def by blast
      show ?thesis
      proof (cases "deviceQueues s d'")
        case None
        with t False show ?thesis by (simp add: f)
      next
        case (Some p)
        with t have "pred_ok s d' (next_tid s) p" by simp
        from po [OF this] Some False show ?thesis by (simp add: f)
      qed
    qed
  qed
  ultimately show ?thesis by (simp add: queue_inv_def)
qed

definition chain_on :: "string \<Rightarrow> nat \<Rightarrow> queue_state \<Rightarrow> queue_state" where
  "chain_on d prev s =
     s\<lparr>deviceQueues := (deviceQueues s)(d \<mapsto> Suc (next_pid s)),
       p_kind := (p_kind s)(next_pid s \<mapsto> CatchOf prev,
                           Suc (next_pid s) \<mapsto> ThenTask (next_pid s) (next_tid s)),
       p_status := (p_status s)(next_pid s \<mapsto> Pending, Suc (next_pid s) \<mapsto> Pending),
       t_owner := (t_owner s)(next_tid s \<mapsto> d),
       t_status := (t_status s)(next_tid s \<mapsto> NotStarted),
       next_pid := Suc (Suc (next_pid s)),
       next_tid := Suc (next_tid s)\<rparr>"

lemma enqueue_as_chain:
  "enqueueDeviceCommand d s =
     (let s1 = snd (getQueueForDevice d s)
      in (Suc (next_pid s1), next_tid s1, chain_on d (fst (getQueueForDevice d s)) s1))"
  by (cases "getQueueForDevice d s")
    (simp add: enqueueDeviceCommand_def new_promise_def chain_on_def Let_def)

lemma chain_on_inv:
  assumes inv: "queue_inv s" and dq: "deviceQueues s d = Some prev"
  shows "queue_inv (chain_on d prev s)"
proof -
  let ?s = "chain_on d prev s"
  let ?np = "next_pid s"
  let ?nt = "next_tid s"
  have f: "deviceQueues ?s = (deviceQueues s)(d \<mapsto> Suc ?np)"
    "p_kind ?s = (p_kind s)(?np \<mapsto> CatchOf prev, Suc ?np \<mapsto> ThenTask ?np ?nt)"
    "p_status ?s = (p_status s)(?np \<mapsto> Pending, Suc ?np \<mapsto> Pending)"
    "t_owner ?s = (t_owner s)(?nt \<mapsto> d)" "t_status ?s = (t_status s)(?nt \<mapsto> NotStarted)"
    "next_pid ?s = Suc (Suc ?np)" "next_tid ?s = Suc ?nt"
    by (simp_all add: chain_on_def)
  from inv have i: "inv_dom s" "inv_resolved s" "inv_catch s" "inv_then s" "inv_task s" "inv_tail s"
    by (simp_all add: queue_inv_def)
  have oldp: "p_kind s p \<noteq> None \<Longrightarrow> p < ?np" for p
    using i(1) by (auto simp: inv_dom_def)
  have oldt: "t_owner s t \<noteq> None \<Longrightarrow> t < ?nt" for t
    using i(1) by (auto simp: inv_dom_def)
  have keptp: "p_kind s p \<noteq> None \<Longrightarrow> p_kind ?s p = p_kind s p \<and> p_status ?s p = p_status s p" for p
    using oldp [of p] by (auto simp: f)
  have keptt: "t < ?nt \<Longrightarrow> t_owner ?s t = t_owner s t \<and> t_status ?s t = t_status s t" for t
    by (simp add: f)
  have st: "p_kind s p \<noteq> None \<Longrightarrow> settled ?s p = settled s p" for p
    using keptp [of p] by (simp add: settled_def)
  have tail: "pred_ok s d ?nt prev"
  proof -
    from i(6) have "case deviceQueues s d of None \<Rightarrow> \<forall>t. t_owner s t \<noteq> Some d
          | Some p \<Rightarrow> pred_ok s d (next_tid s) p"
      unfolding inv_tail_def by blast
    with dq show ?thesis by simp
  qed
  then have prev_old: "p_kind s prev \<noteq> None"
    by (cases "p_kind s prev") (simp_all add: pred_ok_def)
  have po: "pred_ok s d' t p \<Longrightarrow> t \<le> ?nt \<Longrightarrow> pred_ok ?s d' t p" for d' t p
  proof (rule pred_ok_kept)
    assume "t \<le> ?nt"
    then show "t' < t \<Longrightarrow> t_owner ?s t' = t_owner s t'" for t' using keptt [of t'] by simp
    show "p_kind s p \<noteq> None \<Longrightarrow> p_kind ?s p = p_kind s p" using keptp [of p] by simp
  qed
  have ed: "earlier_done s d' t \<Longrightarrow> t \<le> ?nt \<Longrightarrow> earlier_done ?s d' t" for d' t
  proof (rule earlier_done_frame)
    assume "t \<le> ?nt"
    then show "t' < t \<Longrightarrow> t_owner ?s t' = t_owner s t'" for t' using keptt [of t'] by simp
    show "t' < t \<Longrightarrow> task_done s t' \<Longrightarrow> task_done ?s t'" for t'
      using \<open>t \<le> ?nt\<close> keptt [of t'] by (simp add: task_done_def)
  qed
  have then_old: "t < ?nt" if "p_kind s n = Some (ThenTask c t)" for n c t
  proof -
    from i(4) that obtain d' where "t_owner s t = Some d'" unfolding inv_then_def by blast
    then show ?thesis using oldt [of t] by simp
  qed
  have "inv_dom ?s" using i(1) by (auto simp: inv_dom_def f)
  moreover have "inv_resolved ?s"
    unfolding inv_resolved_def
  proof (intro allI impI)
    fix p assume "p_kind ?s p = Some Resolved"
    then have a: "p_kind s p = Some Resolved" by (auto simp: f split: if_splits)
    with i(2) have "p_status s p = Some (Settled (Fulfilled None))" by (simp add: inv_resolved_def)
    with keptp [of p] a show "p_status ?s p = Some (Settled (Fulfilled None))" by simp
  qed
  moreover have "inv_catch ?s"
    unfolding inv_catch_def
  proof (intro allI impI)
    fix c src assume a: "p_kind ?s c = Some (CatchOf src)"
    show "p_kind ?s src \<noteq> None
        \<and> (\<forall>o'. p_status ?s c = Some (Settled o') \<longrightarrow> (\<exists>v. o' = Fulfilled v) \<and> settled ?s src)"
    proof (cases "c = ?np")
      case True
      with a have "src = prev" by (simp add: f)
      with True keptp [OF prev_old] prev_old show ?thesis by (simp add: f)
    next
      case False
      with a have a': "p_kind s c = Some (CatchOf src)" by (auto simp: f split: if_splits)
      from i(3) a' have b: "p_kind s src \<noteq> None"
        "\<And>o'. p_status s c = Some (Settled o') \<Longrightarrow> (\<exists>v. o' = Fulfilled v) \<and> settled s src"
        by (auto simp: inv_catch_def)
      have kc: "p_status ?s c = p_status s c" using keptp [of c] a' by simp
      show ?thesis using b keptp [OF b(1)] st [OF b(1)] kc by auto
    qed
  qed
  moreover have "inv_then ?s"
    unfolding inv_then_def
  proof (intro allI impI)
    fix n0 c0 t assume a: "p_kind ?s n0 = Some (ThenTask c0 t)"
    show "(\<exists>prev d. p_kind ?s c0 = Some (CatchOf prev) \<and> t_owner ?s t = Some d
           \<and> pred_ok ?s d t prev \<and> (settled ?s c0 \<longrightarrow> earlier_done ?s d t))
        \<and> (t_status ?s t \<noteq> Some NotStarted \<longrightarrow> settled ?s c0)
        \<and> (\<forall>o'. p_status ?s n0 = Some (Settled o') \<longrightarrow> t_status ?s t = Some (Done o'))"
    proof (cases "n0 = Suc ?np")
      case True
      with a have ct: "c0 = ?np" "t = ?nt" by (simp_all add: f)
      have 1: "p_kind ?s ?np = Some (CatchOf prev)" "t_owner ?s ?nt = Some d"
        "pred_ok ?s d ?nt prev" "\<not> settled ?s ?np" "t_status ?s ?nt = Some NotStarted"
        "p_status ?s (Suc ?np) = Some Pending"
        using po [OF tail] by (simp_all add: f settled_def)
      show ?thesis unfolding True ct using 1 by auto
    next
      case False
      with a have a': "p_kind s n0 = Some (ThenTask c0 t)" by (auto simp: f split: if_splits)
      from i(4) a' obtain prev' d' where th: "p_kind s c0 = Some (CatchOf prev')" "t_owner s t = Some d'"
        "pred_ok s d' t prev'" "settled s c0 \<Longrightarrow> earlier_done s d' t"
        "t_status s t \<noteq> Some NotStarted \<Longrightarrow> settled s c0"
        "\<And>o'. p_status s n0 = Some (Settled o') \<Longrightarrow> t_status s t = Some (Done o')"
        by (rule inv_thenD) blast
      have tl: "t < ?nt" using then_old [OF a'] .
      have kc: "p_kind ?s c0 = p_kind s c0" "settled ?s c0 = settled s c0"
        using keptp [of c0] st [of c0] th(1) by simp_all
      have kn: "p_status ?s n0 = p_status s n0" using keptp [of n0] a' by simp
      have kt: "t_owner ?s t = t_owner s t" "t_status ?s t = t_status s t"
        using keptt [OF tl] by simp_all
      have 1: "\<exists>prev d. p_kind ?s c0 = Some (CatchOf prev) \<and> t_owner ?s t = Some d \<and> pred_ok ?s d t prev
           \<and> (settled ?s c0 \<longrightarrow> earlier_done ?s d t)"
        using th(1,2,4) po [OF th(3)] ed [of d' t] tl kc kt by auto
      have 2: "t_status ?s t \<noteq> Some NotStarted \<longrightarrow> settled ?s c0"
        using th(5) kc kt by simp
      have 3: "\<forall>o'. p_status ?s n0 = Some (Settled o') \<longrightarrow> t_status ?s t = Some (Done o')"
        using th(6) kn kt by simp
      from 1 2 3 show ?thesis by blast
    qed
  qed
  moreover have "inv_task ?s"
  proof -
    have a: "\<exists>n c. p_kind ?s n = Some (ThenTask c t)" if "t < next_tid ?s" for t
    proof (cases "t = ?nt")
      case True
      have "p_kind ?s (Suc ?np) = Some (ThenTask ?np ?nt)" by (simp add: f)
      with True show ?thesis by blast
    next
      case False
      with that have "t < ?nt" by (simp add: f)
      with i(5) obtain n c where nc: "p_kind s n = Some (ThenTask c t)"
        by (auto simp: inv_task_def)
      then have "p_kind ?s n = Some (ThenTask c t)" using keptp [of n] by simp
      then show ?thesis by blast
    qed
    have b: "n = n'" if h: "p_kind ?s n = Some (ThenTask c t)" "p_kind ?s n' = Some (ThenTask c' t)"
      for n n' c c' t
    proof (cases "t = ?nt")
      case True
      have "n = Suc ?np"
      proof (rule ccontr)
        assume "n \<noteq> Suc ?np"
        with h(1) have "p_kind s n = Some (ThenTask c t)" by (auto simp: f split: if_splits)
        from then_old [OF this] True show False by simp
      qed
      moreover have "n' = Suc ?np"
      proof (rule ccontr)
        assume "n' \<noteq> Suc ?np"
        with h(2) have "p_kind s n' = Some (ThenTask c' t)" by (auto simp: f split: if_splits)
        from then_old [OF this] True show False by simp
      qed
      ultimately show ?thesis by simp
    next
      case False
      with h have "p_kind s n = Some (ThenTask c t)" "p_kind s n' = Some (ThenTask c' t)"
        by (auto simp: f split: if_splits)
      with i(5) show ?thesis unfolding inv_task_def by blast
    qed
    from a b show ?thesis unfolding inv_task_def by blast
  qed
  moreover have "inv_tail ?s"
    unfolding inv_tail_def
  proof
    fix d'
    show "case deviceQueues ?s d' of None \<Rightarrow> \<forall>t. t_owner ?s t \<noteq> Some d'
          | Some p \<Rightarrow> pred_ok ?s d' (next_tid ?s) p"
    proof (cases "d' = d")
      case True
      have "pred_ok ?s d (Suc ?nt) (Suc ?np)"
        using oldt by (auto simp: pred_ok_def f less_Suc_eq_le)
      with True show ?thesis by (simp add: f)
    next
      case False
      from i(6) have t: "case deviceQueues s d' of None \<Rightarrow> \<forall>t. t_owner s t \<noteq> Some d'
          | Some p \<Rightarrow> pred_ok s d' (next_tid s) p"
        unfolding inv_tail_def by blast
      show ?thesis
      proof (cases "deviceQueues s d'")
        case None
        with t False show ?thesis by (simp add: f)
      next
        case (Some p)
        with t have pk: "pred_ok s d' ?nt p" by simp
        then have pold: "p_kind s p \<noteq> None"
          by (cases "p_kind s p") (simp_all add: pred_ok_def)
        have kp: "p_kind ?s p = p_kind s p" using keptp [OF pold] by simp
        have "pred_ok ?s d' (Suc ?nt) p"
        proof (cases "p_kind s p")
          case None
          with pold show ?thesis by simp
        next
          case (Some k)
          show ?thesis
          proof (cases k)
            case Resolved
            with Some pk False oldp [OF pold] show ?thesis
              by (auto simp: pred_ok_def f less_Suc_eq)
          next
            case (CatchOf x)
            with Some pk show ?thesis by (simp add: pred_ok_def)
          next
            case (ThenTask c' t')
            with Some pk False oldp [OF pold] show ?thesis
              by (auto simp: pred_ok_def f less_Suc_eq)
          qed
        qed
        with Some False show ?thesis by (simp add: f)
      qed
    qed
  qed
  ultimately show ?thesis by (simp add: queue_inv_def)
qed

lemma enqueue_inv:
  assumes "queue_inv s"
  shows "queue_inv (snd (snd (enqueueDeviceCommand d s)))"
proof (cases "deviceQueues s d")
  case None
  have "queue_inv (snd (getQueueForDevice d s))" using assms None by (rule getQueue_fresh_inv)
  moreover have "deviceQueues (snd (getQueueForDevice d s)) d = Some (fst (getQueueForDevice d s))"
    using getQueue_fresh_fields [OF None] by simp
  ultimately have "queue_inv (chain_on d (fst (getQueueForDevice d s)) (snd (getQueueForDevice d s)))"
    by (rule chain_on_inv)
  then show ?thesis by (simp add: enqueue_as_chain Let_def)
next
  case (Some p)
  then have "getQueueForDevice d s = (p, s)" by (rule getQueue_existing)
  moreover have "queue_inv (chain_on d p s)" using assms Some by (rule chain_on_inv)
  ultimately show ?thesis by (simp add: enqueue_as_chain Let_def)
qed

lemma step_inv: "step s s' \<Longrightarrow> queue_inv s \<Longrightarrow> queue_inv s'"
proof (induction rule: step.induct)
  case (enqueue s deviceId)
  then show ?case by (rule enqueue_inv)
next
  case (react_catch s c src out)
  then show ?case by (simp add: step_react_catch_inv)
next
  case (start_task s n src task v)
  then show ?case by (simp add: step_start_task_inv)
next
  case (pass_rejection s n src task e)
  with no_rejected_source [of s n src task e] show ?case by simp
next
  case (finish_task s task out)
  then show ?case by (simp add: step_finish_task_inv)
next
  case (adopt s n src task out)
  then show ?case by (simp add: step_adopt_inv)
qed

lemma reachable_inv: "reachable s \<Longrightarrow> queue_inv s"
  by (induction rule: reachable.induct) (simp_all add: queue_inv_init step_inv)

section \<open>One task at a time for each device id\<close>

lemma started_after_earlier:
  assumes r: "reachable s" and ow: "t_owner s t = Some d" and ns: "t_status s t \<noteq> Some NotStarted"
  shows "earlier_done s d t"
proof -
  from r have inv: "queue_inv s" by (rule reachable_inv)
  then have i: "inv_dom s" "inv_then s" "inv_task s" by (simp_all add: queue_inv_def)
  from ow i(1) have "t < next_tid s" by (auto simp: inv_dom_def)
  with i(3) obtain n c where k: "p_kind s n = Some (ThenTask c t)" unfolding inv_task_def by blast
  from i(2) k obtain prev d' where th: "t_owner s t = Some d'"
    "settled s c \<Longrightarrow> earlier_done s d' t" "t_status s t \<noteq> Some NotStarted \<Longrightarrow> settled s c"
    unfolding inv_then_def by blast
  from th(3) [OF ns] th(2) have "earlier_done s d' t" by simp
  moreover have "d' = d" using th(1) ow by simp
  ultimately show ?thesis by simp
qed

lemma one_running:
  assumes r: "reachable s"
    and r1: "t_status s t1 = Some Running" and r2: "t_status s t2 = Some Running"
    and o1: "t_owner s t1 = Some d" and o2: "t_owner s t2 = Some d"
  shows "t1 = t2"
proof (rule ccontr)
  assume ne: "t1 \<noteq> t2"
  have no: "False" if lt: "a < b" and ra: "t_status s a = Some Running"
    and rb: "t_status s b = Some Running" and oa: "t_owner s a = Some d" and ob: "t_owner s b = Some d"
    for a b
  proof -
    from rb have "t_status s b \<noteq> Some NotStarted" by simp
    from started_after_earlier [OF r ob this] lt oa have "task_done s a"
      by (auto simp: earlier_done_def)
    with ra show False by (simp add: task_done_def)
  qed
  from ne consider "t1 < t2" | "t2 < t1" by linarith
  then show False
  proof cases
    case 1
    then show ?thesis using no [of t1 t2] r1 r2 o1 o2 by simp
  next
    case 2
    then show ?thesis using no [of t2 t1] r1 r2 o1 o2 by simp
  qed
qed

lemma own_outcome:
  assumes r: "reachable s" and k: "p_kind s n = Some (ThenTask c t)"
  shows "(p_status s n = Some (Settled out) \<longrightarrow> t_status s t = Some (Done out))
     \<and> (t_status s t = Some (Done out) \<longrightarrow>
          p_status s n = Some (Settled out)
          \<or> (p_status s n = Some Pending
              \<and> step s (s\<lparr>p_status := (p_status s)(n \<mapsto> Settled out)\<rparr>)))"
proof -
  from r have inv: "queue_inv s" by (rule reachable_inv)
  then have i: "inv_dom s" "inv_then s" by (simp_all add: queue_inv_def)
  from i(2) k have a: "\<And>o'. p_status s n = Some (Settled o') \<Longrightarrow> t_status s t = Some (Done o')"
    unfolding inv_then_def by blast
  have b: "p_status s n = Some (Settled out)
          \<or> (p_status s n = Some Pending
              \<and> step s (s\<lparr>p_status := (p_status s)(n \<mapsto> Settled out)\<rparr>))"
    if d: "t_status s t = Some (Done out)"
  proof -
    from k i(1) have "p_status s n \<noteq> None" by (auto simp: inv_dom_def)
    then obtain st where st: "p_status s n = Some st" by auto
    show ?thesis
    proof (cases st)
      case Pending
      with st have "p_status s n = Some Pending" by simp
      with step.adopt [OF k this d] show ?thesis by simp
    next
      case (Settled o')
      with st a [of o'] d show ?thesis by simp
    qed
  qed
  from a b show ?thesis by blast
qed

lemma steps_inv: "step\<^sup>*\<^sup>* s s' \<Longrightarrow> queue_inv s \<Longrightarrow> queue_inv s'"
  by (induction rule: rtranclp_induct) (simp_all add: step_inv)

lemma steps_reachable: "step\<^sup>*\<^sup>* s s' \<Longrightarrow> reachable s \<Longrightarrow> reachable s'"
  by (induction rule: rtranclp_induct) (auto intro: reachable.next_state)

text \<open>
  A task whose predecessors have all settled, in whatever way, can be started: the
  reactions that are still outstanding can run, and the last one calls the task.
\<close>

lemma can_start:
  assumes inv: "queue_inv s" and ow: "t_owner s t = Some d"
    and ns: "t_status s t = Some NotStarted" and ed: "earlier_done s d t"
  shows "\<exists>s'. step\<^sup>*\<^sup>* s s' \<and> t_status s' t = Some Running"
proof -
  from inv have i: "inv_dom s" "inv_resolved s" "inv_catch s" "inv_then s" "inv_task s"
    by (simp_all add: queue_inv_def)
  from ow i(1) have "t < next_tid s" by (auto simp: inv_dom_def)
  with i(5) obtain n c where k: "p_kind s n = Some (ThenTask c t)" unfolding inv_task_def by blast
  from i(4) k obtain prev d' where th: "p_kind s c = Some (CatchOf prev)" "t_owner s t = Some d'"
    "pred_ok s d' t prev" "settled s c \<Longrightarrow> earlier_done s d' t"
    "t_status s t \<noteq> Some NotStarted \<Longrightarrow> settled s c"
    "\<And>o'. p_status s n = Some (Settled o') \<Longrightarrow> t_status s t = Some (Done o')"
    by (rule inv_thenD) blast
  have dd: "d' = d" using th(2) ow by simp
  have pn: "p_status s n = Some Pending"
  proof -
    from k i(1) have "p_status s n \<noteq> None" by (auto simp: inv_dom_def)
    then obtain st where st: "p_status s n = Some st" by auto
    show ?thesis
    proof (cases st)
      case Pending
      with st show ?thesis by simp
    next
      case (Settled o')
      with st th(6) [of o'] ns show ?thesis by simp
    qed
  qed
  have nc: "n \<noteq> c" using k th(1) by auto
  \<comment> \<open>first the promise before the task\<close>
  have "\<exists>s1. step\<^sup>*\<^sup>* s s1 \<and> settled s1 prev \<and> p_kind s1 = p_kind s \<and> t_status s1 = t_status s
          \<and> p_status s1 n = Some Pending"
  proof (cases "p_kind s prev")
    case None
    with th(3) show ?thesis by (simp add: pred_ok_def)
  next
    case (Some kp)
    show ?thesis
    proof (cases kp)
      case Resolved
      with Some i(2) have "settled s prev" by (auto simp: inv_resolved_def settled_def)
      with pn show ?thesis by blast
    next
      case (CatchOf x)
      with Some th(3) show ?thesis by (simp add: pred_ok_def)
    next
      case (ThenTask c' t')
      with Some th(3) dd have p: "t' < t" "t_owner s t' = Some d" by (auto simp: pred_ok_def)
      with ed obtain out where out: "t_status s t' = Some (Done out)"
        by (auto simp: earlier_done_def task_done_def)
      have np: "n \<noteq> prev" using k Some ThenTask p(1) by auto
      from Some i(1) have "p_status s prev \<noteq> None" by (auto simp: inv_dom_def)
      then obtain st where st: "p_status s prev = Some st" by auto
      show ?thesis
      proof (cases st)
        case Pending
        let ?s1 = "s\<lparr>p_status := (p_status s)(prev \<mapsto> Settled out)\<rparr>"
        from Some ThenTask st Pending out have "step s ?s1"
          by (auto intro: step.adopt)
        then have "step\<^sup>*\<^sup>* s ?s1" by blast
        moreover have "settled ?s1 prev" by (simp add: settled_def)
        moreover have "p_status ?s1 n = Some Pending" using pn np by simp
        ultimately show ?thesis by (intro exI [of _ ?s1]) simp
      next
        case (Settled o')
        with st have "settled s prev" by (simp add: settled_def)
        with pn show ?thesis by blast
      qed
    qed
  qed
  then obtain s1 where s1: "step\<^sup>*\<^sup>* s s1" "settled s1 prev" "p_kind s1 = p_kind s"
    "t_status s1 = t_status s" "p_status s1 n = Some Pending"
    by blast
  have inv1: "queue_inv s1" using s1(1) inv by (rule steps_inv)
  then have i1: "inv_dom s1" "inv_catch s1" by (simp_all add: queue_inv_def)
  \<comment> \<open>then the promise made by \<open>catch\<close>\<close>
  have kc1: "p_kind s1 c = Some (CatchOf prev)" using th(1) s1(3) by simp
  have "\<exists>s2 v. step\<^sup>*\<^sup>* s1 s2 \<and> p_status s2 c = Some (Settled (Fulfilled v)) \<and> p_kind s2 = p_kind s1
          \<and> t_status s2 = t_status s1 \<and> p_status s2 n = Some Pending"
  proof -
    from kc1 i1(1) have "p_status s1 c \<noteq> None" by (auto simp: inv_dom_def)
    then obtain st where st: "p_status s1 c = Some st" by auto
    show ?thesis
    proof (cases st)
      case Pending
      from s1(2) obtain out where out: "p_status s1 prev = Some (Settled out)"
        by (auto simp: settled_def)
      let ?s2 = "s1\<lparr>p_status := (p_status s1)(c \<mapsto> Settled (caught_outcome out))\<rparr>"
      obtain v where v: "caught_outcome out = Fulfilled v" by (cases out) simp_all
      from kc1 st Pending out have "step s1 ?s2" by (auto intro: step.react_catch)
      then have "step\<^sup>*\<^sup>* s1 ?s2" by blast
      moreover have "p_status ?s2 c = Some (Settled (Fulfilled v))" by (simp add: v)
      moreover have "p_status ?s2 n = Some Pending" using s1(5) nc by simp
      ultimately show ?thesis by (intro exI [of _ ?s2] exI [of _ v]) simp
    next
      case (Settled o')
      with st i1(2) kc1 obtain v where "o' = Fulfilled v" unfolding inv_catch_def by blast
      with st Settled s1(5) show ?thesis by blast
    qed
  qed
  then obtain s2 v where s2: "step\<^sup>*\<^sup>* s1 s2" "p_status s2 c = Some (Settled (Fulfilled v))"
    "p_kind s2 = p_kind s1" "t_status s2 = t_status s1" "p_status s2 n = Some Pending"
    by blast
  \<comment> \<open>and the task is called\<close>
  let ?s3 = "s2\<lparr>t_status := (t_status s2)(t \<mapsto> Running)\<rparr>"
  have "p_kind s2 n = Some (ThenTask c t)" using k s1(3) s2(3) by simp
  moreover have "t_status s2 t = Some NotStarted" using ns s1(4) s2(4) by simp
  ultimately have "step s2 ?s3" using s2(2,5) by (auto intro: step.start_task)
  with s1(1) s2(1) have "step\<^sup>*\<^sup>* s ?s3" by auto
  moreover have "t_status ?s3 t = Some Running" by simp
  ultimately show ?thesis by blast
qed

text \<open>What \<open>enqueueDeviceCommand\<close> returns: the promise of the new task.\<close>

lemma enqueue_returns:
  assumes "enqueueDeviceCommand d s = (n, t, s')"
  shows "\<exists>c. p_kind s' n = Some (ThenTask c t)" "t_owner s' t = Some d"
    "t_status s' t = Some NotStarted" "p_status s' n = Some Pending" "deviceQueues s' d = Some n"
  using assms by (auto simp: enqueue_as_chain chain_on_def Let_def)

section \<open>A run with two device ids\<close>

definition three_enqueued :: queue_state where
  "three_enqueued =
     snd (snd (enqueueDeviceCommand ''device_1''
       (snd (snd (enqueueDeviceCommand ''device_0''
         (snd (snd (enqueueDeviceCommand ''device_0'' init_queues))))))))"

lemma three_enqueued_fields:
  "p_kind three_enqueued =
     [0 \<mapsto> Resolved, 1 \<mapsto> CatchOf 0, 2 \<mapsto> ThenTask 1 0, 3 \<mapsto> CatchOf 2, 4 \<mapsto> ThenTask 3 1,
      5 \<mapsto> Resolved, 6 \<mapsto> CatchOf 5, 7 \<mapsto> ThenTask 6 2]"
  "p_status three_enqueued =
     [0 \<mapsto> Settled (Fulfilled None), 1 \<mapsto> Pending, 2 \<mapsto> Pending, 3 \<mapsto> Pending, 4 \<mapsto> Pending,
      5 \<mapsto> Settled (Fulfilled None), 6 \<mapsto> Pending, 7 \<mapsto> Pending]"
  "t_owner three_enqueued = [0 \<mapsto> ''device_0'', 1 \<mapsto> ''device_0'', 2 \<mapsto> ''device_1'']"
  "t_status three_enqueued = [0 \<mapsto> NotStarted, 1 \<mapsto> NotStarted, 2 \<mapsto> NotStarted]"
  by (simp_all add: three_enqueued_def enqueue_as_chain chain_on_def getQueueForDevice_def
      new_promise_def init_queues_def Let_def eval_nat_numeral)

definition two_running :: queue_state where
  "two_running =
     three_enqueued\<lparr>p_status := (p_status three_enqueued)
          (1 \<mapsto> Settled (Fulfilled None), 6 \<mapsto> Settled (Fulfilled None)),
        t_status := (t_status three_enqueued)(0 \<mapsto> Running, 2 \<mapsto> Running)\<rparr>"

definition first_failed :: queue_state where
  "first_failed = two_running\<lparr>t_status := (t_status two_running)(0 \<mapsto> Done (Rejected (Some 1)))\<rparr>"

lemma reachable_three_enqueued: "reachable three_enqueued"
  unfolding three_enqueued_def
  by (intro reachable.next_state [OF _ step.enqueue] reachable.init)

lemma reachable_two_running: "reachable two_running"
proof -
  let ?a = "three_enqueued\<lparr>p_status := (p_status three_enqueued)(1 \<mapsto> Settled (caught_outcome (Fulfilled None)))\<rparr>"
  let ?b = "?a\<lparr>t_status := (t_status ?a)(0 \<mapsto> Running)\<rparr>"
  let ?c = "?b\<lparr>p_status := (p_status ?b)(6 \<mapsto> Settled (caught_outcome (Fulfilled None)))\<rparr>"
  let ?d = "?c\<lparr>t_status := (t_status ?c)(2 \<mapsto> Running)\<rparr>"
  have "step three_enqueued ?a"
    by (rule step.react_catch [where src = 0]) (simp_all add: three_enqueued_fields)
  then have ra: "reachable ?a" using reachable_three_enqueued by (rule reachable.next_state [rotated])
  have "step ?a ?b"
    by (rule step.start_task [where n = 2 and src = 1 and v = None])
      (simp_all add: three_enqueued_fields)
  then have rb: "reachable ?b" using ra by (rule reachable.next_state [rotated])
  have "step ?b ?c"
    by (rule step.react_catch [where src = 5]) (simp_all add: three_enqueued_fields)
  then have rc: "reachable ?c" using rb by (rule reachable.next_state [rotated])
  have "step ?c ?d"
    by (rule step.start_task [where n = 7 and src = 6 and v = None])
      (simp_all add: three_enqueued_fields)
  then have rd: "reachable ?d" using rc by (rule reachable.next_state [rotated])
  have "?d = two_running"
    by (simp add: two_running_def fun_upd_twist)
  with rd show ?thesis by simp
qed

lemma two_running_fields:
  "t_status two_running 0 = Some Running" "t_status two_running 2 = Some Running"
  "t_status two_running 1 = Some NotStarted"
  "t_owner two_running 0 = Some ''device_0''" "t_owner two_running 2 = Some ''device_1''"
  "t_owner two_running 1 = Some ''device_0''"
  by (simp_all add: two_running_def three_enqueued_fields)

lemma reachable_first_failed: "reachable first_failed"
  unfolding first_failed_def
  by (rule reachable.next_state [OF reachable_two_running])
    (rule step.finish_task, simp add: two_running_fields)

text \<open>
  C5. In every state the console can reach: two tasks of the same device id are never
  running together; a task that has been called finds every task enqueued earlier for its
  device id settled; a task that has not been called, once every earlier task of its
  device id has settled (fulfilled or rejected), can be called after the outstanding
  reactions; the promise returned to the caller of a task settles only with the outcome
  of that very task, and takes a rejection of the task as its own; and tasks of two
  distinct device ids can be running together.
\<close>

theorem device_queue_serializes:
  "(reachable s \<and> t_status s t1 = Some Running \<and> t_status s t2 = Some Running
      \<and> t_owner s t1 = Some d \<and> t_owner s t2 = Some d \<longrightarrow> t1 = t2)
   \<and> (reachable s \<and> t_owner s t = Some d \<and> t_status s t \<noteq> Some NotStarted \<longrightarrow>
        earlier_done s d t)
   \<and> (reachable s \<and> t_owner s t = Some d \<and> t_status s t = Some NotStarted \<and> earlier_done s d t \<longrightarrow>
        (\<exists>s'. step\<^sup>*\<^sup>* s s' \<and> reachable s' \<and> t_status s' t = Some Running))
   \<and> (reachable s \<and> p_kind s n = Some (ThenTask c t) \<longrightarrow>
        (p_status s n = Some (Settled out) \<longrightarrow> t_status s t = Some (Done out))
        \<and> (t_status s t = Some (Done out) \<longrightarrow>
             p_status s n = Some (Settled out)
             \<or> (p_status s n = Some Pending
                 \<and> step s (s\<lparr>p_status := (p_status s)(n \<mapsto> Settled out)\<rparr>))))
   \<and> (enqueueDeviceCommand d s = (n', t', s'') \<longrightarrow>
        (\<exists>c'. p_kind s'' n' = Some (ThenTask c' t')) \<and> t_owner s'' t' = Some d
        \<and> t_status s'' t' = Some NotStarted \<and> deviceQueues s'' d = Some n')
   \<and> (reachable two_running \<and> t_status two_running 0 = Some Running
        \<and> t_status two_running 2 = Some Running \<and> t_owner two_running 0 = Some ''device_0''
        \<and> t_owner two_running 2 = Some ''device_1'')"
proof -
  have a: "reachable s \<and> t_status s t1 = Some Running \<and> t_status s t2 = Some Running
      \<and> t_owner s t1 = Some d \<and> t_owner s t2 = Some d \<longrightarrow> t1 = t2"
    using one_running by blast
  have b: "reachable s \<and> t_owner s t = Some d \<and> t_status s t \<noteq> Some NotStarted \<longrightarrow>
        earlier_done s d t"
    using started_after_earlier by blast
  have c: "reachable s \<and> t_owner s t = Some d \<and> t_status s t = Some NotStarted \<and> earlier_done s d t \<longrightarrow>
        (\<exists>s'. step\<^sup>*\<^sup>* s s' \<and> reachable s' \<and> t_status s' t = Some Running)"
  proof
    assume h: "reachable s \<and> t_owner s t = Some d \<and> t_status s t = Some NotStarted \<and> earlier_done s d t"
    then have "queue_inv s" by (simp add: reachable_inv)
    from can_start [OF this] h obtain s' where "step\<^sup>*\<^sup>* s s'" "t_status s' t = Some Running"
      by blast
    moreover from this(1) h have "reachable s'" by (simp add: steps_reachable)
    ultimately show "\<exists>s'. step\<^sup>*\<^sup>* s s' \<and> reachable s' \<and> t_status s' t = Some Running" by blast
  qed
  have e: "reachable s \<and> p_kind s n = Some (ThenTask c t) \<longrightarrow>
        (p_status s n = Some (Settled out) \<longrightarrow> t_status s t = Some (Done out))
        \<and> (t_status s t = Some (Done out) \<longrightarrow>
             p_status s n = Some (Settled out)
             \<or> (p_status s n = Some Pending
                 \<and> step s (s\<lparr>p_status := (p_status s)(n \<mapsto> Settled out)\<rparr>)))"
    using own_outcome by blast
  have f: "enqueueDeviceCommand d s = (n', t', s'') \<longrightarrow>
        (\<exists>c'. p_kind s'' n' = Some (ThenTask c' t')) \<and> t_owner s'' t' = Some d
        \<and> t_status s'' t' = Some NotStarted \<and> deviceQueues s'' d = Some n'"
    using enqueue_returns [of d s n' t' s''] by simp
  have g: "reachable two_running \<and> t_status two_running 0 = Some Running
        \<and> t_status two_running 2 = Some Running \<and> t_owner two_running 0 = Some ''device_0''
        \<and> t_owner two_running 2 = Some ''device_1''"
    by (simp add: reachable_two_running two_running_fields)
  from a b c e f g show ?thesis by blast
qed

lemma first_failed_fields:
  "t_status first_failed 0 = Some (Done (Rejected (Some 1)))"
  "t_status first_failed 1 = Some NotStarted"
  "t_owner first_failed 0 = Some ''device_0''" "t_owner first_failed 1 = Some ''device_0''"
  "p_kind first_failed 2 = Some (ThenTask 1 0)" "p_status first_failed 2 = Some Pending"
  by (simp_all add: first_failed_def two_running_def three_enqueued_fields)

theorem device_queue_serializes_witness:
  "t_status first_failed 0 = Some (Done (Rejected (Some 1)))
   \<and> (\<exists>s'. step\<^sup>*\<^sup>* first_failed s' \<and> reachable s' \<and> t_status s' 1 = Some Running)
   \<and> step first_failed
        (first_failed\<lparr>p_status := (p_status first_failed)(2 \<mapsto> Settled (Rejected (Some 1)))\<rparr>)
   \<and> earlier_done two_running ''device_1'' 2
   \<and> t_status (snd (snd (enqueueDeviceCommand ''device_1'' first_failed)))
        (fst (snd (enqueueDeviceCommand ''device_1'' first_failed))) = Some NotStarted"
proof -
  note t = device_queue_serializes [where s = first_failed and t = 1 and d = "''device_0''"
      and ?t1.0 = 0 and ?t2.0 = 0 and n = 2 and c = 1 and out = "Rejected (Some 1)"]
  note u = device_queue_serializes [where s = first_failed and t = 0 and d = "''device_0''"
      and ?t1.0 = 0 and ?t2.0 = 0 and n = 2 and c = 1 and out = "Rejected (Some 1)"]
  note v = device_queue_serializes [where s = two_running and t = 2 and d = "''device_1''"
      and ?t1.0 = 2 and ?t2.0 = 2]
  note w = device_queue_serializes [where s = first_failed and d = "''device_1''"
      and n' = "fst (enqueueDeviceCommand ''device_1'' first_failed)"
      and t' = "fst (snd (enqueueDeviceCommand ''device_1'' first_failed))"
      and s'' = "snd (snd (enqueueDeviceCommand ''device_1'' first_failed))"]
  have ed: "earlier_done first_failed ''device_0'' 1"
    by (simp add: earlier_done_def task_done_def first_failed_fields)
  have 1: "\<exists>s'. step\<^sup>*\<^sup>* first_failed s' \<and> reachable s' \<and> t_status s' 1 = Some Running"
    using t reachable_first_failed ed first_failed_fields by blast
  have 2: "step first_failed
        (first_failed\<lparr>p_status := (p_status first_failed)(2 \<mapsto> Settled (Rejected (Some 1)))\<rparr>)"
    using u reachable_first_failed first_failed_fields by auto
  have 3: "earlier_done two_running ''device_1'' 2"
    using v reachable_two_running two_running_fields by auto
  have 4: "t_status (snd (snd (enqueueDeviceCommand ''device_1'' first_failed)))
        (fst (snd (enqueueDeviceCommand ''device_1'' first_failed))) = Some NotStarted"
    using w by simp
  from 1 2 3 4 first_failed_fields(1) show ?thesis by blast
qed

end
